theory Spec2Isabelle
  imports
    Complex_Main
    "HOL-Library.Multiset"
    "HOL-Library.AList"
    "HOL-Library.Char_ord"
    "HOL-Library.List_Lexorder"
begin

section \<open>JSON values\<close>

text \<open>
  The payload handled by \<^verbatim>\<open>pg_service.py\<close> is whatever \<^verbatim>\<open>resp.json()\<close> returns: Python's
  \<^verbatim>\<open>None\<close>, \<^verbatim>\<open>bool\<close>, \<^verbatim>\<open>int\<close>, \<^verbatim>\<open>float\<close>, \<^verbatim>\<open>str\<close>, \<^verbatim>\<open>list\<close> and \<^verbatim>\<open>dict\<close>.
  A \<^verbatim>\<open>dict\<close> keeps its insertion order and has unique keys, so it is an association
  list; \<open>AList.update\<close> is Python's \<^verbatim>\<open>d[k] = v\<close> (an existing key keeps its position, a
  new key goes last). The numeric value of a float is never inspected by the code.
  Strings are \<open>char list\<close>; the sanitizer and the timestamp test, which only tell ASCII
  letters and digits from all other characters, are modelled on it. Where the result
  depends on the character classes of Unicode, a string is the list of its code points
  and the classes are parameters.
\<close>

datatype json =
    JNull
  | JBool bool
  | JInt int
  | JFloat real
  | JStr string
  | JList "json list"
  | JDict "(string \<times> json) list"

type_synonym pydict = "(string \<times> json) list"

section \<open>Type inference and unification\<close>

definition is_digit :: "char \<Rightarrow> bool" where
  "is_digit c = (48 \<le> (of_char c :: nat) \<and> (of_char c :: nat) \<le> 57)"

text \<open>
  \<^verbatim>\<open>re.match(r"^\d{4}-\d{2}-\d{2}([ T]\d{2}:\d{2}:\d{2}(\.\d+)?(Z)?)?$", s)\<close>, written out
  as a matcher. \<^verbatim>\<open>$\<close> matches at the end of the string and also just before a final
  newline.
\<close>

definition at_end :: "string \<Rightarrow> bool" where
  "at_end r = (r = [] \<or> r = [CHR 0x0A])"

definition z_ok :: "string \<Rightarrow> bool" where
  "z_ok r = (at_end r \<or> (case r of [] \<Rightarrow> False | c # r' \<Rightarrow> c = CHR ''Z'' \<and> at_end r'))"

definition frac_ok :: "string \<Rightarrow> bool" where
  "frac_ok r =
     (z_ok r \<or>
      (case r of
         c # d # r' \<Rightarrow> c = CHR ''.'' \<and> is_digit d \<and> z_ok (dropWhile is_digit r')
       | _ \<Rightarrow> False))"

definition time_ok :: "string \<Rightarrow> bool" where
  "time_ok r =
     (at_end r \<or>
      (case r of
         sep # h1 # h2 # c1 # m1 # m2 # c2 # s1 # s2 # r' \<Rightarrow>
           (sep = CHR '' '' \<or> sep = CHR ''T'') \<and> is_digit h1 \<and> is_digit h2 \<and>
           c1 = CHR '':'' \<and> is_digit m1 \<and> is_digit m2 \<and> c2 = CHR '':'' \<and>
           is_digit s1 \<and> is_digit s2 \<and> frac_ok r'
       | _ \<Rightarrow> False))"

definition try_parse_timestamp :: "string \<Rightarrow> bool" where
  "try_parse_timestamp s =
     (case s of
        y1 # y2 # y3 # y4 # a # m1 # m2 # b # d1 # d2 # r \<Rightarrow>
          is_digit y1 \<and> is_digit y2 \<and> is_digit y3 \<and> is_digit y4 \<and> a = CHR ''-'' \<and>
          is_digit m1 \<and> is_digit m2 \<and> b = CHR ''-'' \<and> is_digit d1 \<and> is_digit d2 \<and>
          time_ok r
      | _ \<Rightarrow> False)"

fun infer_pg_type :: "json \<Rightarrow> string" where
  "infer_pg_type JNull = ''text''"
| "infer_pg_type (JBool b) = ''boolean''"
| "infer_pg_type (JInt i) = ''bigint''"
| "infer_pg_type (JFloat x) = ''numeric''"
| "infer_pg_type (JStr s) =
     (if try_parse_timestamp s then ''timestamptz''
      else if length s \<le> 255 then ''varchar(255)'' else ''text'')"
| "infer_pg_type (JList xs) = ''jsonb''"
| "infer_pg_type (JDict d) = ''jsonb''"

text \<open>Python's \<^verbatim>\<open>p in s\<close> on strings: \<open>p\<close> occurs in \<open>s\<close> as a contiguous piece.\<close>

fun str_in :: "string \<Rightarrow> string \<Rightarrow> bool" where
  "str_in p [] = (p = [])"
| "str_in p (c # cs) = (take (length p) (c # cs) = p \<or> str_in p cs)"

definition unify_types :: "string \<Rightarrow> string \<Rightarrow> string" where
  "unify_types t1 t2 =
     (if t1 = t2 then t1
      else if t1 = ''jsonb'' \<or> t2 = ''jsonb'' then ''jsonb''
      else if (t1 = ''numeric'' \<and> t2 = ''bigint'') \<or> (t2 = ''numeric'' \<and> t1 = ''bigint'')
        then ''numeric''
      else if t1 = ''timestamptz'' \<or> t2 = ''timestamptz'' then ''text''
      else if t1 = ''text'' \<or> t2 = ''text'' then ''text''
      else if (str_in ''varchar'' t1 \<or> str_in ''varchar'' t2) \<and>
              (t1 = ''bigint'' \<or> t1 = ''numeric'' \<or> t2 = ''bigint'' \<or> t2 = ''numeric'')
        then ''text''
      else ''text'')"

text \<open>The tags \<open>infer_pg_type\<close> can return.\<close>

definition type_tags :: "string list" where
  "type_tags =
     [''text'', ''boolean'', ''bigint'', ''numeric'', ''timestamptz'', ''varchar(255)'', ''jsonb'']"

text \<open>
  The per-column loop of \<^verbatim>\<open>insert_rows_batch\<close>: \<^verbatim>\<open>current\<close> starts as \<^verbatim>\<open>None\<close>
  and every record that has a non-null value under \<open>c\<close> contributes its inferred type.
  \<^verbatim>\<open>current or "text"\<close> gives the default for \<^verbatim>\<open>None\<close> and for the empty string.
\<close>

definition col_step :: "string \<Rightarrow> pydict \<Rightarrow> string option \<Rightarrow> string option" where
  "col_step c r current =
     (case map_of r c of
        None \<Rightarrow> current
      | Some v \<Rightarrow>
          if v = JNull then current
          else (case current of
                  None \<Rightarrow> Some (infer_pg_type v)
                | Some t \<Rightarrow> Some (unify_types t (infer_pg_type v))))"

definition col_type :: "pydict list \<Rightarrow> string \<Rightarrow> string" where
  "col_type rows c =
     (case fold (col_step c) rows None of
        None \<Rightarrow> ''text''
      | Some t \<Rightarrow> if t = [] then ''text'' else t)"

section \<open>Identifier sanitizer\<close>

text \<open>
  Character classes of ASCII text, by character code. After the first substitution of
  \<open>sanitize_col\<close> only the characters \<^verbatim>\<open>[a-zA-Z0-9_]\<close> are left, so \<^verbatim>\<open>lower()\<close>,
  \<^verbatim>\<open>isdigit()\<close> and the slice \<^verbatim>\<open>[:63]\<close> see ASCII only.
\<close>

definition is_upper :: "char \<Rightarrow> bool" where
  "is_upper c = (65 \<le> (of_char c :: nat) \<and> (of_char c :: nat) \<le> 90)"

definition is_lower :: "char \<Rightarrow> bool" where
  "is_lower c = (97 \<le> (of_char c :: nat) \<and> (of_char c :: nat) \<le> 122)"

definition is_word :: "char \<Rightarrow> bool" where
  "is_word c = (is_lower c \<or> is_upper c \<or> is_digit c \<or> c = CHR ''_'')"

definition is_space :: "char \<Rightarrow> bool" where
  "is_space c =
     ((9 \<le> (of_char c :: nat) \<and> (of_char c :: nat) \<le> 13) \<or>
      (28 \<le> (of_char c :: nat) \<and> (of_char c :: nat) \<le> 32))"

definition to_lower :: "char \<Rightarrow> char" where
  "to_lower c = (if is_upper c then char_of (of_char c + (32 :: nat)) else c)"

text \<open>\<^verbatim>\<open>s.strip()\<close> and \<^verbatim>\<open>s.strip("_")\<close>: drop the characters of a class at both ends.\<close>

definition strip_chars :: "('a \<Rightarrow> bool) \<Rightarrow> 'a list \<Rightarrow> 'a list" where
  "strip_chars P s = rev (dropWhile P (rev (dropWhile P s)))"

text \<open>
  \<^verbatim>\<open>re.sub(r"[...]+", "_", s)\<close> for a character class \<open>P\<close>: every maximal run of
  characters of the class becomes one underscore.
\<close>

function re_sub_runs :: "(char \<Rightarrow> bool) \<Rightarrow> string \<Rightarrow> string" where
  "re_sub_runs P [] = []"
| "re_sub_runs P (c # cs) =
     (if P c then CHR ''_'' # re_sub_runs P (dropWhile P cs) else c # re_sub_runs P cs)"
  by pat_completeness auto
termination
  by (relation "measure (\<lambda>(P, s). length s)") (auto simp add: length_dropWhile_le less_Suc_eq_le)

definition sanitize_col :: "string \<Rightarrow> string" where
  "sanitize_col name =
     (let n1 = re_sub_runs (\<lambda>c. \<not> is_word c) (strip_chars is_space name);
          n2 = map to_lower (strip_chars (\<lambda>c. c = CHR ''_'') (re_sub_runs (\<lambda>c. c = CHR ''_'') n1));
          n3 = (if n2 = [] then ''col'' else n2);
          n4 = (if is_digit (hd n3) then ''c_'' @ n3 else n3)
      in take 63 n4)"

text \<open>
  \<^verbatim>\<open>table_name_from_endpoint\<close> works on any operation name, and \<^verbatim>\<open>ch.isupper()\<close>,
  \<^verbatim>\<open>ch.islower()\<close> and \<^verbatim>\<open>ch.lower()\<close> follow the tables of Unicode. A Python string is
  here the list of its code points, and the three methods are the parameters \<open>isupper\<close>,
  \<open>islower\<close> and \<open>lower\<close>; the lower case of one character can be several characters.
  \<open>cp\<close> is the code point of an ASCII character and \<open>ustr\<close> the Python string of an ASCII
  literal.
\<close>

definition cp :: "char \<Rightarrow> nat" where
  "cp c = of_char c"

definition ustr :: "string \<Rightarrow> nat list" where
  "ustr s = map cp s"

text \<open>
  The loop over \<^verbatim>\<open>enumerate(endpoint)\<close> appends, for index \<open>i\<close>, an underscore when the
  test holds and then the lower-cased character.
\<close>

definition snake_piece ::
  "(nat \<Rightarrow> bool) \<Rightarrow> (nat \<Rightarrow> bool) \<Rightarrow> (nat \<Rightarrow> nat list) \<Rightarrow> nat list \<Rightarrow> nat \<Rightarrow> nat list" where
  "snake_piece isupper islower lower endpoint i =
     (if isupper (endpoint ! i) \<and> i > 0 \<and>
         (islower (endpoint ! (i - 1)) \<or>
          (i + 1 < length endpoint \<and> islower (endpoint ! (i + 1))))
      then cp CHR ''_'' # lower (endpoint ! i)
      else lower (endpoint ! i))"

definition table_name_from_endpoint ::
  "(nat \<Rightarrow> bool) \<Rightarrow> (nat \<Rightarrow> bool) \<Rightarrow> (nat \<Rightarrow> nat list) \<Rightarrow> nat list \<Rightarrow> nat list" where
  "table_name_from_endpoint isupper islower lower endpoint =
     (let out = concat (map (snake_piece isupper islower lower endpoint) [0..<length endpoint]);
          name = strip_chars (\<lambda>c. c = cp CHR ''_'')
                   (map (\<lambda>c. if c = cp CHR ''-'' then cp CHR ''_'' else c) out)
      in ustr ''api_'' @ name)"

text \<open>
  What the three methods do on ASCII characters, and what it means for tables to agree
  with that on the ASCII range, as the tables of Unicode do.
\<close>

definition ascii_isupper :: "nat \<Rightarrow> bool" where
  "ascii_isupper n = (65 \<le> n \<and> n \<le> 90)"

definition ascii_islower :: "nat \<Rightarrow> bool" where
  "ascii_islower n = (97 \<le> n \<and> n \<le> 122)"

definition ascii_lower :: "nat \<Rightarrow> nat list" where
  "ascii_lower n = [if ascii_isupper n then n + 32 else n]"

definition agree_on_ascii :: "(nat \<Rightarrow> bool) \<Rightarrow> (nat \<Rightarrow> bool) \<Rightarrow> (nat \<Rightarrow> nat list) \<Rightarrow> bool" where
  "agree_on_ascii isupper islower lower =
     (\<forall>n<128. isupper n = ascii_isupper n \<and> islower n = ascii_islower n \<and>
               lower n = ascii_lower n)"

text \<open>
  The description of \<^verbatim>\<open>table_name_from_operation\<close> in the specification, word for word,
  for comparison with the code: an underscore goes before every uppercase letter that is
  preceded by a lowercase letter or followed by a lowercase letter (\<open>prev\<close> is the
  character before the current one, \<open>us\<close> the underscore), the result is lower-cased,
  sanitized and prefixed. \<open>table_name_spec\<close> is that description on an ASCII name.
\<close>

fun insert_boundaries ::
  "('c \<Rightarrow> bool) \<Rightarrow> ('c \<Rightarrow> bool) \<Rightarrow> 'c \<Rightarrow> 'c option \<Rightarrow> 'c list \<Rightarrow> 'c list" where
  "insert_boundaries isupper islower us prev [] = []"
| "insert_boundaries isupper islower us prev (c # cs) =
     (if isupper c \<and>
         ((case prev of None \<Rightarrow> False | Some p \<Rightarrow> islower p) \<or>
          (case cs of [] \<Rightarrow> False | d # ds \<Rightarrow> islower d))
      then [us, c] else [c]) @ insert_boundaries isupper islower us (Some c) cs"

definition table_name_spec :: "string \<Rightarrow> string" where
  "table_name_spec name =
     ''api_'' @
     sanitize_col (map to_lower (insert_boundaries is_upper is_lower CHR ''_'' None name))"

section \<open>Payload normalizer\<close>

text \<open>\<^verbatim>\<open>items.update(other)\<close>: the entries of \<open>other\<close> are stored one after the other.\<close>

definition dict_update :: "pydict \<Rightarrow> pydict \<Rightarrow> pydict" where
  "dict_update items other = fold (\<lambda>(k, v) d. AList.update k v d) other items"

text \<open>
  \<^verbatim>\<open>flatten_json\<close>: \<open>flatten_entries\<close> is the loop over \<^verbatim>\<open>obj.items()\<close>, with the dictionary
  \<^verbatim>\<open>items\<close> built so far as its last argument. An empty \<^verbatim>\<open>parent_key\<close> is the top level;
  the separator is always the underscore.
\<close>

fun flatten_entries :: "string \<Rightarrow> pydict \<Rightarrow> pydict \<Rightarrow> pydict" where
  "flatten_entries parent_key [] items = items"
| "flatten_entries parent_key ((k, v) # rest) items =
     (let new_key = sanitize_col (if parent_key \<noteq> [] then parent_key @ ''_'' @ k else k)
      in flatten_entries parent_key rest
           (case v of
              JDict d \<Rightarrow> dict_update items (flatten_entries new_key d [])
            | _ \<Rightarrow> AList.update new_key v items))"

definition flatten_json :: "pydict \<Rightarrow> string \<Rightarrow> pydict" where
  "flatten_json obj parent_key = flatten_entries parent_key obj []"

definition row_of_item :: "json \<Rightarrow> pydict" where
  "row_of_item item = (case item of JDict d \<Rightarrow> flatten_json d [] | _ \<Rightarrow> [(''valor'', item)])"

definition extract_rows_from_payload :: "json \<Rightarrow> pydict list" where
  "extract_rows_from_payload payload =
     (let data =
        (case payload of
           JDict d \<Rightarrow> (case map_of d ''dados'' of Some (JList xs) \<Rightarrow> xs | _ \<Rightarrow> [payload])
         | JList xs \<Rightarrow> xs
         | _ \<Rightarrow> [JDict [(''valor'', payload)]])
      in map row_of_item data)"

definition is_dict :: "json \<Rightarrow> bool" where
  "is_dict v = (case v of JDict d \<Rightarrow> True | _ \<Rightarrow> False)"

definition is_list :: "json \<Rightarrow> bool" where
  "is_list v = (case v of JList xs \<Rightarrow> True | _ \<Rightarrow> False)"

section \<open>Orphan namespaces\<close>

text \<open>
  \<^verbatim>\<open>drop_orphan_schemas\<close> of \<^verbatim>\<open>main.py\<close>. The database is the list of its namespace
  names. The two calls of the logger are the events \<open>Removed\<close> and \<open>Failed\<close>.
\<close>

datatype log_event = Removed string | Failed string

definition protected :: "string list" where
  "protected = [''public'', ''information_schema'', ''pg_catalog'', ''pg_toast'']"

text \<open>
  The query lists the names that do not match \<^verbatim>\<open>LIKE 'pg_%'\<close> and are not
  \<open>information_schema\<close>. In a \<^verbatim>\<open>LIKE\<close> pattern the underscore stands for any single
  character, so the pattern matches every name of at least three characters that starts
  with \<open>pg\<close>.
\<close>

definition like_pg :: "string \<Rightarrow> bool" where
  "like_pg n = (case n of a # b # c # rest \<Rightarrow> a = CHR ''p'' \<and> b = CHR ''g'' | _ \<Rightarrow> False)"

definition list_schemas :: "string list \<Rightarrow> string list" where
  "list_schemas namespaces = filter (\<lambda>n. \<not> like_pg n \<and> n \<noteq> ''information_schema'') namespaces"

text \<open>
  The set \<^verbatim>\<open>keep\<close>: the non-blank entries of \<^verbatim>\<open>keep_schemas\<close>, trimmed, and the protected
  names. Python's \<^verbatim>\<open>str.strip\<close>, which knows the white space of Unicode, is the parameter
  \<open>strip\<close>.
\<close>

definition keep_names :: "(string \<Rightarrow> string) \<Rightarrow> string list \<Rightarrow> string list" where
  "keep_names strip keep_schemas =
     map strip (filter (\<lambda>s. s \<noteq> [] \<and> strip s \<noteq> []) keep_schemas) @ protected"

text \<open>
  The loop over the listed names. \<^verbatim>\<open>run_cycle\<close> opens the connection with
  \<^verbatim>\<open>psycopg.connect(conninfo)\<close>, without autocommit, so the statements run in a
  transaction that \<^verbatim>\<open>conn.commit()\<close> ends. A \<^verbatim>\<open>DROP SCHEMA\<close> that the database refuses
  (\<open>fails\<close> says for which names) raises and leaves the transaction failed; until a
  rollback every further statement on the connection raises too. The handler of the loop
  logs the exception and issues no rollback, so the flag \<open>failed_tx\<close>, once set, stays
  set to the end of the loop.
\<close>

fun drop_loop ::
  "(string \<Rightarrow> bool) \<Rightarrow> string list \<Rightarrow> string list \<Rightarrow>
   string list \<times> nat \<times> log_event list \<times> bool \<Rightarrow> string list \<times> nat \<times> log_event list \<times> bool" where
  "drop_loop fails keep [] st = st"
| "drop_loop fails keep (s # rest) (namespaces, removed, logged, failed_tx) =
     (if s \<in> set keep then drop_loop fails keep rest (namespaces, removed, logged, failed_tx)
      else if s \<in> set protected
        then drop_loop fails keep rest (namespaces, removed, logged, failed_tx)
      else if failed_tx \<or> fails s
        then drop_loop fails keep rest (namespaces, removed, logged @ [Failed s], True)
      else drop_loop fails keep rest
             (removeAll s namespaces, removed + 1, logged @ [Removed s], False))"

text \<open>The result: the namespaces left in the database, the number returned, and the log.\<close>

definition drop_orphan_schemas ::
  "(string \<Rightarrow> string) \<Rightarrow> (string \<Rightarrow> bool) \<Rightarrow> string list \<Rightarrow> string list \<Rightarrow>
   string list \<times> nat \<times> log_event list" where
  "drop_orphan_schemas strip fails namespaces keep_schemas =
     (case drop_loop fails (keep_names strip keep_schemas) (list_schemas namespaces)
             (namespaces, 0, [], False) of
        (namespaces', removed, logged, failed_tx) \<Rightarrow> (namespaces', removed, logged))"

section \<open>The store and the batch loader\<close>

text \<open>
  The PostgreSQL side of \<^verbatim>\<open>pg_service.py\<close>, as far as the code uses it. A table has its
  columns (name and type) and its rows; the columns \<^verbatim>\<open>_id\<close> and \<^verbatim>\<open>_fetched_at\<close> are
  filled in by the database and carry no value here. A value bound to a statement is
  the Python value itself or, for a \<^verbatim>\<open>dict\<close> or a \<^verbatim>\<open>list\<close>, the text \<^verbatim>\<open>json.dumps\<close> makes
  of it. A connection has the committed state of the database and the state its open
  transaction works on; \<^verbatim>\<open>conn.commit()\<close> makes the second the first. A statement that
  raises leaves both as they are, and what is pending then stays uncommitted.
\<close>

datatype bound = Plain json | JsonText json

type_synonym stored_row = "(string \<times> bound) list"

record pg_table =
  t_columns :: "(string \<times> string) list"
  t_rows :: "stored_row list"

record pg_db =
  schemas :: "string list"
  tables :: "string \<times> string \<Rightarrow> pg_table option"

record pg_conn =
  committed :: pg_db
  working :: pg_db

datatype error = AddColumnError string | InsertError | ValueError

text \<open>
  The helpers of the module, each one statement followed by \<^verbatim>\<open>conn.commit()\<close>. Whether
  an \<^verbatim>\<open>ALTER TABLE\<close> or an \<^verbatim>\<open>INSERT\<close> raises is decided by the database: the parameters
  \<open>add_fails\<close> and \<open>insert_fails\<close> stand for it, and may depend on the state of the
  connection. \<^verbatim>\<open>executemany\<close> does not commit. The code reaches \<^verbatim>\<open>add_column\<close> and
  \<^verbatim>\<open>executemany\<close> only after \<^verbatim>\<open>ensure_table_base\<close>, so the table is there; on a table
  that is not there the two change nothing.
\<close>

definition commit :: "pg_conn \<Rightarrow> pg_conn" where
  "commit conn = conn\<lparr>committed := working conn\<rparr>"

definition ensure_schema :: "pg_conn \<Rightarrow> string \<Rightarrow> pg_conn" where
  "ensure_schema conn schema =
     (let db = working conn;
          db' = (if schema \<in> set (schemas db) then db else db\<lparr>schemas := schemas db @ [schema]\<rparr>)
      in commit (conn\<lparr>working := db'\<rparr>))"

definition drop_table_if_exists :: "pg_conn \<Rightarrow> string \<Rightarrow> string \<Rightarrow> pg_conn" where
  "drop_table_if_exists conn schema table =
     (let db = working conn;
          db' = db\<lparr>tables := (tables db)((schema, table) := None)\<rparr>
      in commit (conn\<lparr>working := db'\<rparr>))"

definition base_columns :: "(string \<times> string) list" where
  "base_columns = [(''_id'', ''bigserial''), (''_fetched_at'', ''timestamptz''), (''_endpoint'', ''text'')]"

definition ensure_table_base :: "pg_conn \<Rightarrow> string \<Rightarrow> string \<Rightarrow> pg_conn" where
  "ensure_table_base conn schema table =
     (let db = working conn;
          db' = (case tables db (schema, table) of
                   Some t \<Rightarrow> db
                 | None \<Rightarrow> db\<lparr>tables := (tables db)((schema, table) \<mapsto>
                             \<lparr>t_columns = base_columns, t_rows = []\<rparr>)\<rparr>)
      in commit (conn\<lparr>working := db'\<rparr>))"

definition get_existing_columns :: "pg_conn \<Rightarrow> string \<Rightarrow> string \<Rightarrow> string list" where
  "get_existing_columns conn schema table =
     (case tables (working conn) (schema, table) of
        None \<Rightarrow> []
      | Some t \<Rightarrow> map fst (t_columns t))"

definition add_column ::
  "(pg_conn \<Rightarrow> string \<Rightarrow> string \<Rightarrow> bool) \<Rightarrow> pg_conn \<Rightarrow> string \<Rightarrow> string \<Rightarrow> string \<Rightarrow> string \<Rightarrow>
   pg_conn \<times> (error + unit)" where
  "add_column add_fails conn schema table col pg_type =
     (if add_fails conn col pg_type then (conn, Inl (AddColumnError col))
      else
        (let db = working conn;
             db' = (case tables db (schema, table) of
                      None \<Rightarrow> db
                    | Some t \<Rightarrow>
                        if col \<in> set (map fst (t_columns t)) then db
                        else db\<lparr>tables := (tables db)((schema, table) \<mapsto>
                               t\<lparr>t_columns := t_columns t @ [(col, pg_type)]\<rparr>)\<rparr>)
         in (commit (conn\<lparr>working := db'\<rparr>), Inr ())))"

definition executemany ::
  "(pg_conn \<Rightarrow> stored_row list \<Rightarrow> bool) \<Rightarrow> pg_conn \<Rightarrow> string \<Rightarrow> string \<Rightarrow> stored_row list \<Rightarrow>
   pg_conn \<times> (error + unit)" where
  "executemany insert_fails conn schema table vals =
     (if insert_fails conn vals then (conn, Inl InsertError)
      else
        (let db = working conn;
             db' = (case tables db (schema, table) of
                      None \<Rightarrow> db
                    | Some t \<Rightarrow> db\<lparr>tables := (tables db)((schema, table) \<mapsto>
                                   t\<lparr>t_rows := t_rows t @ vals\<rparr>)\<rparr>)
         in (conn\<lparr>working := db'\<rparr>, Inr ())))"

text \<open>
  The pieces of \<^verbatim>\<open>insert_rows_batch\<close>: the sorted column names without the three base
  columns, the tuple bound for one record (a missing key and \<^verbatim>\<open>None\<close> both bind
  \<^verbatim>\<open>None\<close>), and the slices \<^verbatim>\<open>rows[i:i + batch_size]\<close> for \<open>i\<close> in
  \<^verbatim>\<open>range(0, len(rows), batch_size)\<close>. A negative step gives an empty range; a step of
  zero raises \<^verbatim>\<open>ValueError\<close>, which \<open>insert_rows_batch\<close> below returns.
\<close>

definition all_cols_of :: "pydict list \<Rightarrow> string list" where
  "all_cols_of rs =
     filter (\<lambda>c. c \<noteq> ''_id'' \<and> c \<noteq> ''_fetched_at'' \<and> c \<noteq> ''_endpoint'')
       (sort (remdups (concat (map (map fst) rs))))"

definition bind_value :: "json \<Rightarrow> bound" where
  "bind_value v = (if is_dict v \<or> is_list v then JsonText v else Plain v)"

definition row_values :: "string \<Rightarrow> string list \<Rightarrow> pydict \<Rightarrow> stored_row" where
  "row_values endpoint cols r =
     (''_endpoint'', Plain (JStr endpoint)) #
     map (\<lambda>c. (c, bind_value (case map_of r c of None \<Rightarrow> JNull | Some v \<Rightarrow> v))) cols"

definition chunks_of :: "pydict list \<Rightarrow> int \<Rightarrow> pydict list list" where
  "chunks_of rs batch_size =
     (if batch_size > 0
      then map (\<lambda>i. take (nat batch_size) (drop i rs))
             (filter (\<lambda>i. i mod nat batch_size = 0) [0..<length rs])
      else [])"

text \<open>
  The loop that adds the missing columns and the loop over the chunks. An exception
  leaves the loop and the function at once, with the connection as it is then.
\<close>

fun add_missing ::
  "(pg_conn \<Rightarrow> string \<Rightarrow> string \<Rightarrow> bool) \<Rightarrow> string \<Rightarrow> string \<Rightarrow> (string \<Rightarrow> string) \<Rightarrow>
   string list \<Rightarrow> string list \<Rightarrow> pg_conn \<Rightarrow> pg_conn \<times> (error + unit)" where
  "add_missing add_fails schema table col_types existing [] conn = (conn, Inr ())"
| "add_missing add_fails schema table col_types existing (c # cs) conn =
     (if c \<in> set existing then add_missing add_fails schema table col_types existing cs conn
      else (case add_column add_fails conn schema table c (col_types c) of
              (conn', Inl e) \<Rightarrow> (conn', Inl e)
            | (conn', Inr u) \<Rightarrow> add_missing add_fails schema table col_types existing cs conn'))"

fun insert_chunks ::
  "(pg_conn \<Rightarrow> stored_row list \<Rightarrow> bool) \<Rightarrow> string \<Rightarrow> string \<Rightarrow> string \<Rightarrow> string list \<Rightarrow>
   pydict list list \<Rightarrow> pg_conn \<Rightarrow> nat \<Rightarrow> pg_conn \<times> (error + nat)" where
  "insert_chunks insert_fails schema table endpoint cols [] conn tot = (conn, Inr tot)"
| "insert_chunks insert_fails schema table endpoint cols (chunk # rest) conn tot =
     (case executemany insert_fails conn schema table (map (row_values endpoint cols) chunk) of
        (conn', Inl e) \<Rightarrow> (conn', Inl e)
      | (conn', Inr u) \<Rightarrow>
          insert_chunks insert_fails schema table endpoint cols rest conn' (tot + length chunk))"

text \<open>
  \<^verbatim>\<open>insert_rows_batch\<close>. The single \<^verbatim>\<open>conn.commit()\<close> for the inserted rows comes after the
  loop over the chunks.
\<close>

definition insert_rows_batch ::
  "(pg_conn \<Rightarrow> string \<Rightarrow> string \<Rightarrow> bool) \<Rightarrow> (pg_conn \<Rightarrow> stored_row list \<Rightarrow> bool) \<Rightarrow>
   pg_conn \<Rightarrow> string \<Rightarrow> string \<Rightarrow> string \<Rightarrow> pydict list \<Rightarrow> int \<Rightarrow> bool \<Rightarrow>
   pg_conn \<times> (error + nat)" where
  "insert_rows_batch add_fails insert_fails conn schema table endpoint rs batch_size
       recreate_table_each_run =
     (if rs = [] then (conn, Inr 0)
      else
        (let all_cols = all_cols_of rs;
             c1 = ensure_schema conn schema;
             c2 = (if recreate_table_each_run then drop_table_if_exists c1 schema table else c1);
             c3 = ensure_table_base c2 schema table;
             existing = get_existing_columns c3 schema table
         in (case add_missing add_fails schema table (col_type rs) existing all_cols c3 of
               (c4, Inl e) \<Rightarrow> (c4, Inl e)
             | (c4, Inr u) \<Rightarrow>
                 if batch_size = 0 then (c4, Inl ValueError)
                 else (case insert_chunks insert_fails schema table endpoint all_cols
                              (chunks_of rs batch_size) c4 0 of
                         (c5, Inl e) \<Rightarrow> (c5, Inl e)
                       | (c5, Inr tot) \<Rightarrow> (commit c5, Inr tot)))))"

text \<open>
  The two ways the function is called: with the defaults of its signature
  (\<^verbatim>\<open>batch_size=500\<close>, \<^verbatim>\<open>recreate_table_each_run=True\<close>), and as \<^verbatim>\<open>run_cycle\<close> of
  \<^verbatim>\<open>main.py\<close> calls it (\<^verbatim>\<open>batch_size=500\<close>, \<^verbatim>\<open>recreate_table_each_run=False\<close>).
\<close>

definition insert_rows_batch_defaults ::
  "(pg_conn \<Rightarrow> string \<Rightarrow> string \<Rightarrow> bool) \<Rightarrow> (pg_conn \<Rightarrow> stored_row list \<Rightarrow> bool) \<Rightarrow>
   pg_conn \<Rightarrow> string \<Rightarrow> string \<Rightarrow> string \<Rightarrow> pydict list \<Rightarrow> pg_conn \<times> (error + nat)" where
  "insert_rows_batch_defaults add_fails insert_fails conn schema table endpoint rs =
     insert_rows_batch add_fails insert_fails conn schema table endpoint rs 500 True"

definition run_cycle_insert ::
  "(pg_conn \<Rightarrow> string \<Rightarrow> string \<Rightarrow> bool) \<Rightarrow> (pg_conn \<Rightarrow> stored_row list \<Rightarrow> bool) \<Rightarrow>
   pg_conn \<Rightarrow> string \<Rightarrow> string \<Rightarrow> string \<Rightarrow> pydict list \<Rightarrow> pg_conn \<times> (error + nat)" where
  "run_cycle_insert add_fails insert_fails conn schema table endpoint rs =
     insert_rows_batch add_fails insert_fails conn schema table endpoint rs 500 False"

text \<open>
  For the statements about the loader: the rows and columns of a table in a state of
  the database, an empty database, the connection after the first three steps of
  \<open>insert_rows_batch\<close>, the rows and columns the table has then, and the columns it has
  once the missing ones among \<open>cols\<close> are added.
\<close>

definition table_rows :: "pg_db \<Rightarrow> string \<Rightarrow> string \<Rightarrow> stored_row list" where
  "table_rows db schema table = (case tables db (schema, table) of None \<Rightarrow> [] | Some t \<Rightarrow> t_rows t)"

definition table_columns :: "pg_db \<Rightarrow> string \<Rightarrow> string \<Rightarrow> (string \<times> string) list" where
  "table_columns db schema table =
     (case tables db (schema, table) of None \<Rightarrow> [] | Some t \<Rightarrow> t_columns t)"

definition empty_db :: pg_db where
  "empty_db = \<lparr>schemas = [], tables = (\<lambda>k. None)\<rparr>"

definition fresh_conn :: pg_conn where
  "fresh_conn = \<lparr>committed = empty_db, working = empty_db\<rparr>"

definition prepared :: "pg_conn \<Rightarrow> string \<Rightarrow> string \<Rightarrow> bool \<Rightarrow> pg_conn" where
  "prepared conn schema table recreate =
     ensure_table_base
       (if recreate then drop_table_if_exists (ensure_schema conn schema) schema table
        else ensure_schema conn schema) schema table"

definition rows_before :: "pg_conn \<Rightarrow> string \<Rightarrow> string \<Rightarrow> bool \<Rightarrow> stored_row list" where
  "rows_before conn schema table recreate =
     (if recreate then [] else table_rows (working conn) schema table)"

definition columns_before :: "pg_conn \<Rightarrow> string \<Rightarrow> string \<Rightarrow> bool \<Rightarrow> (string \<times> string) list" where
  "columns_before conn schema table recreate =
     (if recreate \<or> tables (working conn) (schema, table) = None then base_columns
      else table_columns (working conn) schema table)"

definition columns_after ::
  "pg_conn \<Rightarrow> string \<Rightarrow> string \<Rightarrow> bool \<Rightarrow> pydict list \<Rightarrow> string list \<Rightarrow> (string \<times> string) list" where
  "columns_after conn schema table recreate rs cols =
     columns_before conn schema table recreate @
     map (\<lambda>x. (x, col_type rs x))
       (filter (\<lambda>x. x \<notin> set (map fst (columns_before conn schema table recreate))) cols)"

text \<open>
  The identifier grammar, for the proofs about the sanitizer: the characters an identifier
  may contain, the absence of two underscores in a row, and the shape of a result of
  \<open>sanitize_col\<close>.
\<close>

definition ident_char :: "char \<Rightarrow> bool" where
  "ident_char c = (is_lower c \<or> is_digit c \<or> c = CHR ''_'')"

fun no_double_us :: "string \<Rightarrow> bool" where
  "no_double_us (a # b # cs) = (\<not> (a = CHR ''_'' \<and> b = CHR ''_'') \<and> no_double_us (b # cs))"
| "no_double_us cs = True"

definition ident_ok :: "string \<Rightarrow> bool" where
  "ident_ok s = (s \<noteq> [] \<and> (\<forall>c\<in>set s. ident_char c) \<and> no_double_us s \<and>
                 hd s \<noteq> CHR ''_'' \<and> \<not> is_digit (hd s) \<and> length s \<le> 63)"

section \<open>Properties of unification\<close>

lemma infer_pg_type_in_tags: "infer_pg_type v \<in> set type_tags"
  by (cases v) (simp_all add: type_tags_def)

lemma unify_types_char:
  "unify_types a b =
     (if a = b then a
      else if a = ''jsonb'' \<or> b = ''jsonb'' then ''jsonb''
      else if (a = ''numeric'' \<and> b = ''bigint'') \<or> (b = ''numeric'' \<and> a = ''bigint'')
        then ''numeric''
      else ''text'')"
  by (simp add: unify_types_def)

lemma unify_types_commute: "unify_types a b = unify_types b a"
  by (auto simp add: unify_types_char)

text \<open>
  Unification is the join of a small semilattice: \<open>jsonb\<close> absorbs everything,
  \<open>bigint\<close> sits under \<open>numeric\<close>, and any other pair of different tags meets in
  \<open>text\<close>. The associativity proof only needs that the four named tags differ.
\<close>

lemma flat_join_assoc:
  fixes J N B T :: 'a
  assumes d: "J \<noteq> N" "J \<noteq> B" "J \<noteq> T" "N \<noteq> B" "N \<noteq> T" "B \<noteq> T"
    and u: "\<And>a b. u a b =
     (if a = b then a
      else if a = J \<or> b = J then J
      else if (a = N \<and> b = B) \<or> (b = N \<and> a = B) then N
      else T)"
  shows "u (u a b) c = u a (u b c)"
proof -
  have ca: "a = J \<or> a = N \<or> a = B \<or> a = T \<or> (a \<noteq> J \<and> a \<noteq> N \<and> a \<noteq> B \<and> a \<noteq> T)"
    by blast
  have cb: "b = J \<or> b = N \<or> b = B \<or> b = T \<or> (b \<noteq> J \<and> b \<noteq> N \<and> b \<noteq> B \<and> b \<noteq> T)"
    by blast
  have cc: "c = J \<or> c = N \<or> c = B \<or> c = T \<or> (c \<noteq> J \<and> c \<noteq> N \<and> c \<noteq> B \<and> c \<noteq> T)"
    by blast
  have d': "N \<noteq> J" "B \<noteq> J" "T \<noteq> J" "B \<noteq> N" "T \<noteq> N" "T \<noteq> B"
    using d by auto
  from ca cb cc show ?thesis
    by (elim disjE conjE; simp add: u d d')
qed

lemma unify_types_assoc:
  "unify_types (unify_types a b) c = unify_types a (unify_types b c)"
proof (rule flat_join_assoc)
  show "unify_types x y =
     (if x = y then x
      else if x = ''jsonb'' \<or> y = ''jsonb'' then ''jsonb''
      else if (x = ''numeric'' \<and> y = ''bigint'') \<or> (y = ''numeric'' \<and> x = ''bigint'')
        then ''numeric''
      else ''text'')" for x y
    by (rule unify_types_char)
qed simp_all

lemma unify_types_swap:
  "unify_types (unify_types t x) y = unify_types (unify_types t y) x"
proof -
  have "unify_types (unify_types t x) y = unify_types t (unify_types x y)"
    by (rule unify_types_assoc)
  also have "\<dots> = unify_types t (unify_types y x)"
    by (simp only: unify_types_commute[of x y])
  also have "\<dots> = unify_types (unify_types t y) x"
    by (rule unify_types_assoc[symmetric])
  finally show ?thesis .
qed

lemma col_step_commute: "col_step c r1 (col_step c r2 cur) = col_step c r2 (col_step c r1 cur)"
proof (cases "map_of r1 c")
  case None
  then show ?thesis by (simp add: col_step_def)
next
  case s1: (Some v1)
  show ?thesis
  proof (cases "map_of r2 c")
    case None
    then show ?thesis by (simp add: col_step_def)
  next
    case s2: (Some v2)
    show ?thesis
    proof (cases cur)
      case None
      then show ?thesis
        using s1 s2 unify_types_commute[of "infer_pg_type v1" "infer_pg_type v2"]
        by (simp add: col_step_def)
    next
      case (Some t)
      then show ?thesis
        using s1 s2 unify_types_swap[of t "infer_pg_type v1" "infer_pg_type v2"]
        by (simp add: col_step_def)
    qed
  qed
qed

lemma fold_col_step_mset:
  assumes "mset rows = mset rows'"
  shows "fold (col_step c) rows = fold (col_step c) rows'"
proof (rule fold_multiset_equiv)
  show "mset rows = mset rows'" by (rule assms)
next
  fix x y
  show "col_step c x \<circ> col_step c y = col_step c y \<circ> col_step c x"
    by (rule ext) (simp add: col_step_commute)
qed

text \<open>
  Claim C2. Unification is commutative and associative (on every pair and triple of
  strings, so in particular on the seven tags that inference produces), and therefore
  the resolved type of a column is the same for every reordering of the records of a
  batch.
\<close>

theorem unify_types_comm_assoc_order_independent:
  "unify_types a b = unify_types b a \<and>
   unify_types (unify_types a b) c = unify_types a (unify_types b c) \<and>
   (mset rows = mset rows' \<longrightarrow> col_type rows col = col_type rows' col)"
proof (intro conjI impI)
  show "unify_types a b = unify_types b a"
    by (rule unify_types_commute)
  show "unify_types (unify_types a b) c = unify_types a (unify_types b c)"
    by (rule unify_types_assoc)
  assume "mset rows = mset rows'"
  then have "fold (col_step col) rows = fold (col_step col) rows'"
    by (rule fold_col_step_mset)
  then show "col_type rows col = col_type rows' col"
    by (simp only: col_type_def)
qed

theorem unify_types_comm_assoc_order_independent_witness:
  "mset [[(''v'', JInt 10)], [(''v'', JStr ''x'')]] =
     mset [[(''v'', JStr ''x'')], [(''v'', JInt 10)]] \<and>
   col_type [[(''v'', JInt 10)], [(''v'', JStr ''x'')]] ''v'' = ''text'' \<and>
   col_type [[(''v'', JStr ''x'')], [(''v'', JInt 10)]] ''v'' = ''text''"
  using unify_types_comm_assoc_order_independent
    [of "''bigint''" "''numeric''" "''text''" "[[(''v'', JInt 10)], [(''v'', JStr ''x'')]]"
        "[[(''v'', JStr ''x'')], [(''v'', JInt 10)]]" "''v''"]
  by (simp add: col_type_def col_step_def unify_types_def try_parse_timestamp_def)

section \<open>Timestamps in unification\<close>

lemma timestamp_example: "try_parse_timestamp ''2024-01-05T10:00:00Z''"
  by (simp add: try_parse_timestamp_def time_ok_def frac_ok_def z_ok_def at_end_def is_digit_def)

lemma not_a_date_example: "\<not> try_parse_timestamp ''not-a-date''"
  by (simp add: try_parse_timestamp_def)

text \<open>
  Claim C4, as stated, fails for the tag \<open>jsonb\<close>: the \<open>jsonb\<close> test of \<open>unify_types\<close>
  comes before the \<open>timestamptz\<close> test, so a timestamp paired with a structured value
  unifies to \<open>jsonb\<close>, not to \<open>text\<close>.
\<close>

theorem unify_timestamp_jsonb_counterexample:
  "''jsonb'' \<in> set type_tags \<and> ''jsonb'' \<noteq> ''timestamptz'' \<and>
   unify_types ''timestamptz'' ''jsonb'' = ''jsonb'' \<and>
   unify_types ''timestamptz'' ''jsonb'' \<noteq> ''text'' \<and>
   unify_types ''jsonb'' ''timestamptz'' \<noteq> ''text''"
  by (simp add: type_tags_def unify_types_def)

text \<open>
  Claim C4, amended. For every tag \<open>t\<close> other than \<open>timestamptz\<close> and \<open>jsonb\<close>,
  \<open>timestamptz\<close> unified with \<open>t\<close> (in either order) is \<open>text\<close>; with \<open>jsonb\<close> it is
  \<open>jsonb\<close>. A column holding the string 2024-01-05T10:00:00Z in one record and
  not-a-date in another resolves to \<open>text\<close>.
\<close>

theorem unify_timestamp_demotes_to_text:
  "(t \<noteq> ''timestamptz'' \<and> t \<noteq> ''jsonb'' \<longrightarrow>
      unify_types ''timestamptz'' t = ''text'' \<and> unify_types t ''timestamptz'' = ''text'') \<and>
   unify_types ''timestamptz'' ''jsonb'' = ''jsonb'' \<and>
   unify_types ''jsonb'' ''timestamptz'' = ''jsonb'' \<and>
   infer_pg_type (JStr ''2024-01-05T10:00:00Z'') = ''timestamptz'' \<and>
   infer_pg_type (JStr ''not-a-date'') = ''varchar(255)'' \<and>
   col_type [[(''criado_em'', JStr ''2024-01-05T10:00:00Z'')],
             [(''criado_em'', JStr ''not-a-date'')]] ''criado_em'' = ''text''"
proof (intro conjI impI)
  assume t: "t \<noteq> ''timestamptz'' \<and> t \<noteq> ''jsonb''"
  then show "unify_types ''timestamptz'' t = ''text''"
    by (auto simp add: unify_types_def)
  from t show "unify_types t ''timestamptz'' = ''text''"
    by (auto simp add: unify_types_def)
next
  show "unify_types ''timestamptz'' ''jsonb'' = ''jsonb''"
    by (simp add: unify_types_def)
  show "unify_types ''jsonb'' ''timestamptz'' = ''jsonb''"
    by (simp add: unify_types_def)
  show "infer_pg_type (JStr ''2024-01-05T10:00:00Z'') = ''timestamptz''"
    by (simp add: timestamp_example)
  show "infer_pg_type (JStr ''not-a-date'') = ''varchar(255)''"
    by (simp add: not_a_date_example)
  show "col_type [[(''criado_em'', JStr ''2024-01-05T10:00:00Z'')],
                  [(''criado_em'', JStr ''not-a-date'')]] ''criado_em'' = ''text''"
    by (simp add: col_type_def col_step_def unify_types_def timestamp_example not_a_date_example)
qed

theorem unify_timestamp_demotes_to_text_witness:
  "''bigint'' \<noteq> ''timestamptz'' \<and> ''bigint'' \<noteq> ''jsonb'' \<and>
   unify_types ''timestamptz'' ''bigint'' = ''text'' \<and>
   unify_types ''bigint'' ''timestamptz'' = ''text''"
  using unify_timestamp_demotes_to_text [of "''bigint''"]
  by simp

section \<open>Properties of the sanitizer\<close>

lemma re_sub_runs_id: "\<forall>c \<in> set s. \<not> P c \<Longrightarrow> re_sub_runs P s = s"
  by (induction s) auto

lemma re_sub_runs_notP: "\<not> P c \<Longrightarrow> re_sub_runs P (c # cs) = c # re_sub_runs P cs"
  by simp

lemma set_re_sub_runs: "set (re_sub_runs P s) \<subseteq> {c. c \<in> set s \<and> \<not> P c} \<union> {CHR ''_''}"
proof (induction P s rule: re_sub_runs.induct)
  case (1 P)
  then show ?case by simp
next
  case (2 P c cs)
  show ?case
  proof (cases "P c")
    case True
    have "set (dropWhile P cs) \<subseteq> set cs" by (rule set_dropWhileD[THEN subsetI]) 
    with 2 True show ?thesis by auto
  next
    case False
    with 2 show ?thesis by auto
  qed
qed

lemma hd_re_sub_runs_dropWhile:
  "re_sub_runs P (dropWhile P cs) = [] \<or> \<not> P (hd (re_sub_runs P (dropWhile P cs)))"
proof (cases "dropWhile P cs")
  case Nil
  then have "re_sub_runs P (dropWhile P cs) = []" by (simp only: re_sub_runs.simps)
  then show ?thesis by blast
next
  case (Cons x xs)
  then have "\<not> P x" by (metis hd_dropWhile list.sel(1) list.distinct(1))
  with Cons show ?thesis by simp
qed

lemma no_double_us_Cons:
  "no_double_us (a # xs) = ((xs = [] \<or> \<not> (a = CHR ''_'' \<and> hd xs = CHR ''_'')) \<and> no_double_us xs)"
  by (cases xs) auto

lemma no_double_re_sub_runs: "no_double_us (re_sub_runs (\<lambda>c. c = CHR ''_'') s)"
proof (induction "(\<lambda>c. c = CHR ''_'')" s rule: re_sub_runs.induct)
  case 1
  then show ?case by simp
next
  case (2 c cs)
  show ?case
  proof (cases "c = CHR ''_''")
    case True
    with 2 hd_re_sub_runs_dropWhile[of "(\<lambda>c. c = CHR ''_'')" cs] show ?thesis
      by (auto simp add: no_double_us_Cons)
  next
    case False
    with 2 show ?thesis by (auto simp add: no_double_us_Cons)
  qed
qed

lemma re_sub_runs_us_id: "no_double_us s \<Longrightarrow> re_sub_runs (\<lambda>c. c = CHR ''_'') s = s"
proof (induction s)
  case Nil
  then show ?case by simp
next
  case (Cons c cs)
  then have nd: "no_double_us cs" and h: "cs = [] \<or> \<not> (c = CHR ''_'' \<and> hd cs = CHR ''_'')"
    by (simp_all add: no_double_us_Cons)
  show ?case
  proof (cases "c = CHR ''_''")
    case True
    with h have "dropWhile (\<lambda>c. c = CHR ''_'') cs = cs" by (cases cs) auto
    with True Cons.IH nd show ?thesis by simp
  next
    case False
    with Cons.IH nd show ?thesis by simp
  qed
qed

lemma dropWhile_hd_id: "xs \<noteq> [] \<Longrightarrow> \<not> P (hd xs) \<Longrightarrow> dropWhile P xs = xs"
  by (cases xs) auto

lemma strip_chars_id: "s = [] \<or> (\<not> P (hd s) \<and> \<not> P (last s)) \<Longrightarrow> strip_chars P s = s"
proof (cases s)
  case Nil
  then show ?thesis by (simp add: strip_chars_def)
next
  case (Cons a as)
  assume "s = [] \<or> (\<not> P (hd s) \<and> \<not> P (last s))"
  with Cons have h: "\<not> P (hd s)" and l: "\<not> P (last s)" by auto
  from Cons h have 1: "dropWhile P s = s" by simp
  from Cons have "rev s \<noteq> []" and "hd (rev s) = last s"
    by (simp_all add: hd_rev)
  with l have "dropWhile P (rev s) = rev s"
    by (simp add: dropWhile_hd_id)
  with 1 show ?thesis by (simp add: strip_chars_def)
qed

lemma strip_chars_ends:
  "strip_chars P s = [] \<or> (\<not> P (hd (strip_chars P s)) \<and> \<not> P (last (strip_chars P s)))"
proof (cases "strip_chars P s = []")
  case True
  then show ?thesis by simp
next
  case False
  define d where "d = dropWhile P s"
  define e where "e = dropWhile P (rev d)"
  have se: "strip_chars P s = rev e" by (simp add: strip_chars_def d_def e_def)
  with False have ne: "e \<noteq> []" by simp
  then have "\<not> P (hd e)" unfolding e_def by (rule hd_dropWhile)
  then have l: "\<not> P (last (rev e))" using ne by (simp add: last_rev)
  from ne obtain ys where ys: "rev d = ys @ e" and "\<forall>y\<in>set ys. P y"
    unfolding e_def by (metis takeWhile_dropWhile_id set_takeWhileD)
  then have "d = rev e @ rev ys" by (metis rev_append rev_rev_ident)
  moreover have "d = [] \<or> \<not> P (hd d)" unfolding d_def using hd_dropWhile by blast
  ultimately have "\<not> P (hd (rev e))" using ne by (cases "rev e") auto
  with l se show ?thesis by simp
qed

lemma set_strip_chars: "set (strip_chars P s) \<subseteq> set s"
proof -
  have "set (dropWhile P (rev (dropWhile P s))) \<subseteq> set (rev (dropWhile P s))"
    by (auto dest: set_dropWhileD)
  also have "\<dots> \<subseteq> set s" by (auto dest: set_dropWhileD)
  finally show ?thesis by (simp add: strip_chars_def)
qed

lemma strip_chars_infix: "\<exists>xs zs. s = xs @ strip_chars P s @ zs"
proof -
  define d where "d = dropWhile P s"
  have "rev d = takeWhile P (rev d) @ dropWhile P (rev d)" by simp
  then have "rev (rev d) = rev (takeWhile P (rev d) @ dropWhile P (rev d))" by simp
  then have "d = rev (dropWhile P (rev d)) @ rev (takeWhile P (rev d))" by (simp only: rev_rev_ident rev_append)
  then have "d = strip_chars P s @ rev (takeWhile P (rev d))" by (simp add: strip_chars_def d_def)
  moreover have "s = takeWhile P s @ d" by (simp add: d_def)
  ultimately have "s = takeWhile P s @ strip_chars P s @ rev (takeWhile P (rev d))" by simp
  then show ?thesis by blast
qed

lemma strip_chars_prefix:
  assumes "s \<noteq> []" and "\<not> P (hd s)"
  shows "strip_chars P s \<noteq> [] \<and> (\<exists>zs. s = strip_chars P s @ zs)"
proof -
  from assms have d: "dropWhile P s = s" by (rule dropWhile_hd_id)
  have "rev s = takeWhile P (rev s) @ dropWhile P (rev s)" by simp
  then have "rev (rev s) = rev (takeWhile P (rev s) @ dropWhile P (rev s))" by simp
  then have "s = rev (dropWhile P (rev s)) @ rev (takeWhile P (rev s))" by (simp only: rev_rev_ident rev_append)
  with d have eq: "s = strip_chars P s @ rev (takeWhile P (rev s))" by (simp add: strip_chars_def)
  have "strip_chars P s \<noteq> []"
  proof
    assume "strip_chars P s = []"
    with eq have "s = rev (takeWhile P (rev s))" by simp
    then have "set s = set (takeWhile P (rev s))" by (metis set_rev)
    moreover from assms have "hd s \<in> set s" by simp
    ultimately have "P (hd s)" by (auto dest: set_takeWhileD)
    with assms show False by simp
  qed
  with eq show ?thesis by blast
qed

lemma no_double_us_append: "no_double_us (xs @ ys) \<Longrightarrow> no_double_us xs \<and> no_double_us ys"
proof (induction xs)
  case Nil
  then show ?case by simp
next
  case (Cons a xs)
  then show ?case by (cases xs) (auto simp add: no_double_us_Cons)
qed

lemma no_double_us_strip: "no_double_us s \<Longrightarrow> no_double_us (strip_chars P s)"
  by (metis strip_chars_infix no_double_us_append)

lemma no_double_us_take: "no_double_us s \<Longrightarrow> no_double_us (take n s)"
  by (metis append_take_drop_id no_double_us_append)

lemma of_char_to_lower: "is_upper c \<Longrightarrow> (of_char (to_lower c) :: nat) = of_char c + 32"
  by (simp add: to_lower_def is_upper_def)

lemma to_lower_ident: "is_word c \<Longrightarrow> ident_char (to_lower c)"
proof (cases "is_upper c")
  case True
  then have "(of_char (to_lower c) :: nat) = of_char c + 32" by (rule of_char_to_lower)
  with True show ?thesis by (simp add: ident_char_def is_lower_def is_upper_def)
next
  case False
  assume "is_word c"
  with False show ?thesis by (simp add: to_lower_def ident_char_def is_word_def)
qed

lemma to_lower_us: "(to_lower c = CHR ''_'') = (c = CHR ''_'')"
proof (cases "is_upper c")
  case True
  then have e: "(of_char (to_lower c) :: nat) = of_char c + 32" by (rule of_char_to_lower)
  have "to_lower c \<noteq> CHR ''_''"
  proof
    assume "to_lower c = CHR ''_''"
    with e have "(of_char c :: nat) + 32 = 95" by simp
    with True show False by (simp add: is_upper_def)
  qed
  moreover from True have "c \<noteq> CHR ''_''" by (auto simp add: is_upper_def)
  ultimately show ?thesis by simp
next
  case False
  then show ?thesis by (simp add: to_lower_def)
qed

lemma no_double_us_map_lower: "no_double_us s \<Longrightarrow> no_double_us (map to_lower s)"
  by (induction s rule: no_double_us.induct) (simp_all add: to_lower_us)

lemma ident_not_upper: "ident_char c \<Longrightarrow> \<not> is_upper c"
  by (auto simp add: ident_char_def is_lower_def is_digit_def is_upper_def)

lemma ident_not_space: "ident_char c \<Longrightarrow> \<not> is_space c"
  by (auto simp add: ident_char_def is_lower_def is_digit_def is_space_def)

lemma ident_is_word: "ident_char c \<Longrightarrow> is_word c"
  by (auto simp add: ident_char_def is_word_def)

lemma map_to_lower_id: "\<forall>c\<in>set s. ident_char c \<Longrightarrow> map to_lower s = s"
  by (induction s) (auto simp add: to_lower_def ident_not_upper)

text \<open>
  The stages of \<open>sanitize_col\<close>: before the final truncation the name is a well-formed
  identifier that does not end in an underscore.
\<close>

lemma sanitize_col_stages:
  "\<exists>n4. sanitize_col k = take 63 n4 \<and> n4 \<noteq> [] \<and> (\<forall>c\<in>set n4. ident_char c) \<and>
        no_double_us n4 \<and> hd n4 \<noteq> CHR ''_'' \<and> \<not> is_digit (hd n4) \<and> last n4 \<noteq> CHR ''_''"
proof -
  define n1 where "n1 = re_sub_runs (\<lambda>c. \<not> is_word c) (strip_chars is_space k)"
  define m where "m = re_sub_runs (\<lambda>c. c = CHR ''_'') n1"
  define st where "st = strip_chars (\<lambda>c. c = CHR ''_'') m"
  define n2 where "n2 = map to_lower st"
  define n3 where "n3 = (if n2 = [] then ''col'' else n2)"
  define n4 where "n4 = (if is_digit (hd n3) then ''c_'' @ n3 else n3)"
  have res: "sanitize_col k = take 63 n4"
    by (simp add: sanitize_col_def Let_def n1_def m_def st_def n2_def n3_def n4_def)
  have w1: "\<forall>c\<in>set n1. is_word c"
    using set_re_sub_runs[of "\<lambda>c. \<not> is_word c" "strip_chars is_space k"]
    by (auto simp add: n1_def is_word_def)
  have wm: "\<forall>c\<in>set m. is_word c"
    using set_re_sub_runs[of "\<lambda>c. c = CHR ''_''" n1] w1
    by (auto simp add: m_def is_word_def)
  have ndm: "no_double_us m"
    by (simp add: m_def no_double_re_sub_runs)
  have wst: "\<forall>c\<in>set st. is_word c"
    using set_strip_chars[of "\<lambda>c. c = CHR ''_''" m] wm by (auto simp add: st_def)
  have ndst: "no_double_us st"
    using ndm by (simp add: st_def no_double_us_strip)
  have est: "st = [] \<or> (hd st \<noteq> CHR ''_'' \<and> last st \<noteq> CHR ''_'')"
    using strip_chars_ends[of "\<lambda>c. c = CHR ''_''" m] by (auto simp add: st_def)
  have i2: "\<forall>c\<in>set n2. ident_char c"
    using wst by (auto simp add: n2_def to_lower_ident)
  have nd2: "no_double_us n2"
    using ndst by (simp add: n2_def no_double_us_map_lower)
  have e2: "n2 = [] \<or> (hd n2 \<noteq> CHR ''_'' \<and> last n2 \<noteq> CHR ''_'')"
    using est by (auto simp add: n2_def hd_map last_map to_lower_us)
  have ne3: "n3 \<noteq> []" by (simp add: n3_def)
  have i3: "\<forall>c\<in>set n3. ident_char c"
    using i2 by (auto simp add: n3_def ident_char_def is_lower_def)
  have nd3: "no_double_us n3"
    using nd2 by (simp add: n3_def)
  have e3: "hd n3 \<noteq> CHR ''_''" and l3: "last n3 \<noteq> CHR ''_''"
    using e2 by (auto simp add: n3_def)
  have ne4: "n4 \<noteq> []" using ne3 by (simp add: n4_def)
  have i4: "\<forall>c\<in>set n4. ident_char c"
    using i3 by (auto simp add: n4_def ident_char_def is_lower_def)
  have nd4: "no_double_us n4"
    using nd3 e3 ne3 by (cases n3) (auto simp add: n4_def)
  have e4: "hd n4 \<noteq> CHR ''_''"
    using e3 by (simp add: n4_def)
  have d4: "\<not> is_digit (hd n4)"
    by (simp add: n4_def is_digit_def)
  have l4: "last n4 \<noteq> CHR ''_''"
    using l3 ne3 by (simp add: n4_def)
  from res ne4 i4 nd4 e4 d4 l4 show ?thesis by blast
qed

lemma sanitize_col_ident_ok: "ident_ok (sanitize_col k)"
proof -
  from sanitize_col_stages[of k] obtain n4
    where res: "sanitize_col k = take 63 n4" and ne4: "n4 \<noteq> []"
      and i4: "\<forall>c\<in>set n4. ident_char c" and nd4: "no_double_us n4"
      and e4: "hd n4 \<noteq> CHR ''_''" and d4: "\<not> is_digit (hd n4)"
    by blast
  have hd_take: "hd (take 63 n4) = hd n4"
    using ne4 by (cases n4) simp_all
  have "take 63 n4 \<noteq> []" using ne4 by simp
  moreover have "\<forall>c\<in>set (take 63 n4). ident_char c"
    using i4 by (auto dest: in_set_takeD)
  moreover have "no_double_us (take 63 n4)"
    using nd4 by (rule no_double_us_take)
  ultimately show ?thesis
    using e4 d4 hd_take by (simp add: res ident_ok_def)
qed

lemma sanitize_col_short_no_trailing:
  assumes "length (sanitize_col k) < 63"
  shows "last (sanitize_col k) \<noteq> CHR ''_''"
proof -
  from sanitize_col_stages[of k] obtain n4
    where res: "sanitize_col k = take 63 n4" and l4: "last n4 \<noteq> CHR ''_''"
    by blast
  from assms res have "length (take 63 n4) < 63" by simp
  then have "length n4 < 63" by (simp add: min_def split: if_splits)
  then have "take 63 n4 = n4" by simp
  with res l4 show ?thesis by simp
qed

lemma strip_chars_keeps_hd:
  assumes "s \<noteq> []" and "\<not> P (hd s)"
  shows "strip_chars P s \<noteq> [] \<and> hd (strip_chars P s) = hd s"
proof -
  from strip_chars_prefix[of s P] assms obtain zs
    where ne: "strip_chars P s \<noteq> []" and eq: "s = strip_chars P s @ zs"
    by blast
  from ne have "hd (strip_chars P s @ zs) = hd (strip_chars P s)" by (rule hd_append2)
  with eq have "hd s = hd (strip_chars P s)" by (rule ssubst)
  with ne show ?thesis by (intro conjI) (assumption, rule sym)
qed

lemma length_strip_chars: "length (strip_chars P s) \<le> length s"
proof -
  have "length (strip_chars P s) = length (dropWhile P (rev (dropWhile P s)))"
    by (simp only: strip_chars_def length_rev)
  also have "\<dots> \<le> length (rev (dropWhile P s))" by (rule length_dropWhile_le)
  also have "\<dots> = length (dropWhile P s)" by (rule length_rev)
  also have "\<dots> \<le> length s" by (rule length_dropWhile_le)
  finally show ?thesis .
qed

lemma sanitize_col_on_ident:
  assumes "ident_ok s"
  shows "sanitize_col s = strip_chars (\<lambda>c. c = CHR ''_'') s"
proof -
  from assms have ne: "s \<noteq> []" and ic: "\<forall>c\<in>set s. ident_char c" and nd: "no_double_us s"
    and hu: "hd s \<noteq> CHR ''_''" and hdig: "\<not> is_digit (hd s)" and len: "length s \<le> 63"
    by (simp_all add: ident_ok_def)
  from ne ic have "\<not> is_space (hd s)" "\<not> is_space (last s)"
    by (simp_all add: ident_not_space)
  then have 1: "strip_chars is_space s = s" by (simp add: strip_chars_id)
  from ic have "\<forall>c\<in>set s. \<not> \<not> is_word c" by (simp add: ident_is_word)
  then have 2: "re_sub_runs (\<lambda>c. \<not> is_word c) s = s" by (rule re_sub_runs_id)
  from nd have 3: "re_sub_runs (\<lambda>c. c = CHR ''_'') s = s" by (rule re_sub_runs_us_id)
  define st where "st = strip_chars (\<lambda>c. c = CHR ''_'') s"
  from strip_chars_keeps_hd[of s "\<lambda>c. c = CHR ''_''"] ne hu
  have stne: "st \<noteq> []" and hd: "hd st = hd s" by (simp_all add: st_def)
  have "set st \<subseteq> set s" unfolding st_def by (rule set_strip_chars)
  with ic have "\<forall>c\<in>set st. ident_char c" by blast
  then have 4: "map to_lower st = st" by (rule map_to_lower_id)
  have "length st \<le> length s" unfolding st_def by (rule length_strip_chars)
  with len have l: "take 63 st = st" by simp
  have "sanitize_col s =
          (let n2 = map to_lower (strip_chars (\<lambda>c. c = CHR ''_'') s);
               n3 = (if n2 = [] then ''col'' else n2);
               n4 = (if is_digit (hd n3) then ''c_'' @ n3 else n3)
           in take 63 n4)"
    by (simp only: sanitize_col_def Let_def 1 2 3)
  also have "\<dots> = take 63 st"
    using stne hdig by (simp only: Let_def st_def[symmetric] 4 hd if_False)
  finally show ?thesis using l by (simp only: st_def)
qed

lemma sanitize_col_fixed_iff:
  assumes "ident_ok s"
  shows "(sanitize_col s = s) = (last s \<noteq> CHR ''_'')"
proof
  assume "sanitize_col s = s"
  with assms have e: "strip_chars (\<lambda>c. c = CHR ''_'') s = s" by (simp add: sanitize_col_on_ident)
  from assms have "s \<noteq> []" by (simp add: ident_ok_def)
  with e strip_chars_ends[of "\<lambda>c. c = CHR ''_''" s] show "last s \<noteq> CHR ''_''" by simp
next
  assume "last s \<noteq> CHR ''_''"
  moreover from assms have "hd s \<noteq> CHR ''_''" by (simp add: ident_ok_def)
  ultimately have "strip_chars (\<lambda>c. c = CHR ''_'') s = s" by (simp add: strip_chars_id)
  with assms show "sanitize_col s = s" by (simp add: sanitize_col_on_ident)
qed

lemma sanitize_col_twice_fixed:
  "sanitize_col (sanitize_col (sanitize_col k)) = sanitize_col (sanitize_col k)"
proof -
  define s where "s = sanitize_col k"
  have ok: "ident_ok s" by (simp add: s_def sanitize_col_ident_ok)
  then have e: "sanitize_col s = strip_chars (\<lambda>c. c = CHR ''_'') s" by (rule sanitize_col_on_ident)
  have ok': "ident_ok (sanitize_col s)" by (rule sanitize_col_ident_ok)
  then have "sanitize_col s \<noteq> []" by (simp add: ident_ok_def)
  with e strip_chars_ends[of "\<lambda>c. c = CHR ''_''" s] have "last (sanitize_col s) \<noteq> CHR ''_''" by simp
  with ok' have "sanitize_col (sanitize_col s) = sanitize_col s" by (simp add: sanitize_col_fixed_iff)
  then show ?thesis by (simp add: s_def)
qed

text \<open>
  Claim C1, as stated, fails: the truncation to 63 characters is the last step, so it can
  leave an underscore at the end, which a second application strips. The key made of 62
  letters \<open>a\<close> followed by \<open>_b\<close> is sanitized to 62 letters \<open>a\<close> and an underscore;
  sanitizing that result again gives the 62 letters alone.
\<close>

theorem sanitize_col_not_idempotent_counterexample:
  "sanitize_col (replicate 62 CHR ''a'' @ ''_b'') = replicate 62 CHR ''a'' @ ''_'' \<and>
   sanitize_col (sanitize_col (replicate 62 CHR ''a'' @ ''_b'')) = replicate 62 CHR ''a'' \<and>
   sanitize_col (sanitize_col (replicate 62 CHR ''a'' @ ''_b'')) \<noteq>
     sanitize_col (replicate 62 CHR ''a'' @ ''_b'')"
  by code_simp

text \<open>
  Claim C1, amended. For every raw key the result of \<open>sanitize_col\<close> matches the
  identifier grammar: it is non-empty, consists only of lowercase letters, digits and
  underscores, does not start with a digit and has at most 63 characters. Sanitizing the
  result again gives the same identifier exactly when the result does not end in an
  underscore; this is the case whenever the result is shorter than 63 characters. In
  every case the second application yields a fixed point.
\<close>

theorem sanitize_col_grammar_and_fixed_point:
  "sanitize_col k \<noteq> [] \<and>
   (\<forall>c\<in>set (sanitize_col k). is_lower c \<or> is_digit c \<or> c = CHR ''_'') \<and>
   \<not> is_digit (hd (sanitize_col k)) \<and>
   length (sanitize_col k) \<le> 63 \<and>
   ((sanitize_col (sanitize_col k) = sanitize_col k) = (last (sanitize_col k) \<noteq> CHR ''_'')) \<and>
   (length (sanitize_col k) < 63 \<longrightarrow> sanitize_col (sanitize_col k) = sanitize_col k) \<and>
   sanitize_col (sanitize_col (sanitize_col k)) = sanitize_col (sanitize_col k)"
proof -
  have ok: "ident_ok (sanitize_col k)" by (rule sanitize_col_ident_ok)
  have iff: "(sanitize_col (sanitize_col k) = sanitize_col k) = (last (sanitize_col k) \<noteq> CHR ''_'')"
    using ok by (rule sanitize_col_fixed_iff)
  have short: "length (sanitize_col k) < 63 \<longrightarrow> sanitize_col (sanitize_col k) = sanitize_col k"
    using iff sanitize_col_short_no_trailing[of k] by blast
  have chars: "\<forall>c\<in>set (sanitize_col k). is_lower c \<or> is_digit c \<or> c = CHR ''_''"
    using ok by (simp add: ident_ok_def ident_char_def)
  from ok have "sanitize_col k \<noteq> []" "\<not> is_digit (hd (sanitize_col k))" "length (sanitize_col k) \<le> 63"
    by (simp_all add: ident_ok_def)
  with chars iff short sanitize_col_twice_fixed[of k] show ?thesis by blast
qed

theorem sanitize_col_grammar_and_fixed_point_witness:
  "sanitize_col ''  Nome do Cliente!! '' = ''nome_do_cliente'' \<and>
   list_all (\<lambda>c. is_lower c \<or> is_digit c \<or> c = CHR ''_'') ''nome_do_cliente'' \<and>
   length ''nome_do_cliente'' < (63 :: nat) \<and>
   last ''nome_do_cliente'' \<noteq> CHR ''_'' \<and>
   sanitize_col ''nome_do_cliente'' = ''nome_do_cliente''"
proof -
  have e: "sanitize_col ''  Nome do Cliente!! '' = ''nome_do_cliente''"
    by code_simp
  from sanitize_col_grammar_and_fixed_point [of "''  Nome do Cliente!! ''"]
  show ?thesis unfolding e by (simp add: is_lower_def is_digit_def)
qed

section \<open>Table names from operation names\<close>

lemma snake_piece_mid:
  assumes "pre \<noteq> []" and "lower (cp CHR ''_'') = [cp CHR ''_'']"
  shows "snake_piece isupper islower lower (pre @ c # cs) (length pre) =
           concat (map lower
             (if isupper c \<and>
                 (islower (last pre) \<or> (case cs of [] \<Rightarrow> False | d # ds \<Rightarrow> islower d))
              then [cp CHR ''_'', c] else [c]))"
proof -
  have at: "(pre @ c # cs) ! length pre = c" by simp
  have before: "(pre @ c # cs) ! (length pre - 1) = last pre"
    using assms(1) by (simp add: nth_append last_conv_nth)
  have pos: "length pre > 0" using assms(1) by simp
  show ?thesis
  proof (cases cs)
    case Nil
    then show ?thesis using at before pos assms(2) by (simp add: snake_piece_def)
  next
    case (Cons d ds)
    then have "(pre @ c # cs) ! (length pre + 1) = d" by (simp add: nth_append)
    with Cons show ?thesis using at before pos assms(2) by (simp add: snake_piece_def)
  qed
qed

lemma snake_loop_from:
  assumes "lower (cp CHR ''_'') = [cp CHR ''_'']"
  shows "pre \<noteq> [] \<Longrightarrow>
   concat (map (snake_piece isupper islower lower (pre @ suf)) [length pre..<length pre + length suf]) =
     concat (map lower (insert_boundaries isupper islower (cp CHR ''_'') (Some (last pre)) suf))"
proof (induction suf arbitrary: pre)
  case Nil
  then show ?case by simp
next
  case (Cons c cs)
  have idx: "[length pre..<length pre + length (c # cs)] =
               length pre # [length (pre @ [c])..<length (pre @ [c]) + length cs]"
    by (simp add: upt_rec)
  have ih: "concat (map (snake_piece isupper islower lower ((pre @ [c]) @ cs))
                      [length (pre @ [c])..<length (pre @ [c]) + length cs]) =
              concat (map lower
                (insert_boundaries isupper islower (cp CHR ''_'') (Some (last (pre @ [c]))) cs))"
    by (rule Cons.IH) simp
  have rest: "concat (map (snake_piece isupper islower lower (pre @ c # cs))
                        [length (pre @ [c])..<length (pre @ [c]) + length cs]) =
              concat (map lower (insert_boundaries isupper islower (cp CHR ''_'') (Some c) cs))"
    using ih by simp
  show ?case
    unfolding idx
    using rest Cons.prems assms
      snake_piece_mid[where pre = pre and lower = lower and isupper = isupper
        and islower = islower and c = c and cs = cs]
    by (simp del: upt_Suc)
qed

lemma strip_chars_drop_first: "P c \<Longrightarrow> strip_chars P (c # xs) = strip_chars P xs"
  by (simp add: strip_chars_def)

lemma snake_loop_all:
  assumes "lower (cp CHR ''_'') = [cp CHR ''_'']"
  shows "concat (map lower (insert_boundaries isupper islower (cp CHR ''_'') None (c # cs))) =
     concat (map (snake_piece isupper islower lower (c # cs)) [0..<length (c # cs)]) \<or>
   concat (map lower (insert_boundaries isupper islower (cp CHR ''_'') None (c # cs))) =
     cp CHR ''_'' # concat (map (snake_piece isupper islower lower (c # cs)) [0..<length (c # cs)])"
proof -
  have idx: "[0..<length (c # cs)] = 0 # [length [c]..<length [c] + length cs]"
    by (simp add: upt_rec)
  have first: "snake_piece isupper islower lower (c # cs) 0 = lower c"
    by (simp add: snake_piece_def)
  have rest: "concat (map (snake_piece isupper islower lower (c # cs)) [length [c]..<length [c] + length cs]) =
                concat (map lower (insert_boundaries isupper islower (cp CHR ''_'') (Some c) cs))"
    using assms snake_loop_from[where lower = lower and pre = "[c]" and isupper = isupper
        and islower = islower and suf = cs]
    by simp
  have code: "concat (map (snake_piece isupper islower lower (c # cs)) [0..<length (c # cs)]) =
                lower c @ concat (map lower (insert_boundaries isupper islower (cp CHR ''_'') (Some c) cs))"
    unfolding idx using first rest by (simp del: upt_Suc)
  show ?thesis unfolding code using assms by simp
qed

lemma table_name_from_endpoint_spec_words:
  assumes "lower (cp CHR ''_'') = [cp CHR ''_'']"
  shows "table_name_from_endpoint isupper islower lower e =
     ustr ''api_'' @ strip_chars (\<lambda>c. c = cp CHR ''_'')
        (map (\<lambda>c. if c = cp CHR ''-'' then cp CHR ''_'' else c)
           (concat (map lower (insert_boundaries isupper islower (cp CHR ''_'') None e))))"
proof (cases e)
  case Nil
  then show ?thesis by (simp add: table_name_from_endpoint_def)
next
  case (Cons c cs)
  define out where "out = concat (map (snake_piece isupper islower lower (c # cs)) [0..<length (c # cs)])"
  define spec where
    "spec = concat (map lower (insert_boundaries isupper islower (cp CHR ''_'') None (c # cs)))"
  from assms snake_loop_all[where lower = lower and isupper = isupper and islower = islower
      and c = c and cs = cs]
  have "spec = out \<or> spec = cp CHR ''_'' # out"
    by (simp only: out_def spec_def)
  then have "strip_chars (\<lambda>c. c = cp CHR ''_'')
               (map (\<lambda>c. if c = cp CHR ''-'' then cp CHR ''_'' else c) spec) =
             strip_chars (\<lambda>c. c = cp CHR ''_'')
               (map (\<lambda>c. if c = cp CHR ''-'' then cp CHR ''_'' else c) out)"
    by (auto simp add: strip_chars_drop_first)
  then show ?thesis
    by (simp only: Cons table_name_from_endpoint_def Let_def out_def spec_def)
qed

lemma snake_piece_ascii:
  assumes "agree_on_ascii isupper islower lower" and "\<forall>c\<in>set e. c < 128" and "i < length e"
  shows "snake_piece isupper islower lower e i = snake_piece ascii_isupper ascii_islower ascii_lower e i"
proof -
  have at: "e ! i < 128" using assms(2,3) by simp
  have before: "e ! (i - 1) < 128" using assms(2,3) by simp
  have after: "i + 1 < length e \<Longrightarrow> e ! (i + 1) < 128" using assms(2) by simp
  from assms(1) have ag: "\<And>n. n < 128 \<Longrightarrow>
      isupper n = ascii_isupper n \<and> islower n = ascii_islower n \<and> lower n = ascii_lower n"
    by (simp add: agree_on_ascii_def)
  show ?thesis
  proof (cases "i + 1 < length e")
    case True
    with ag[OF at] ag[OF before] ag[OF after[OF True]] show ?thesis
      by (simp add: snake_piece_def)
  next
    case False
    with ag[OF at] ag[OF before] show ?thesis
      by (simp add: snake_piece_def)
  qed
qed

lemma table_name_from_endpoint_ascii:
  assumes "agree_on_ascii isupper islower lower" and "\<forall>c\<in>set e. c < 128"
  shows "table_name_from_endpoint isupper islower lower e =
         table_name_from_endpoint ascii_isupper ascii_islower ascii_lower e"
proof -
  have "map (snake_piece isupper islower lower e) [0..<length e] =
        map (snake_piece ascii_isupper ascii_islower ascii_lower e) [0..<length e]"
    by (rule map_cong) (simp_all add: snake_piece_ascii[OF assms])
  then show ?thesis by (simp only: table_name_from_endpoint_def)
qed

lemma ascii_agrees: "agree_on_ascii ascii_isupper ascii_islower ascii_lower"
  by (simp add: agree_on_ascii_def)

text \<open>
  Claim C7, as stated, fails: \<^verbatim>\<open>table_name_from_endpoint\<close> never calls the sanitizer. For
  the operation name \<open>Obter Clientes\<close> the code returns \<open>api_obter _clientes\<close>, with
  the space still in it, where the described procedure gives \<open>api_obter_clientes\<close>. The
  name is ASCII, where the tables of Unicode are the ASCII ones.
\<close>

theorem table_name_not_sanitized_counterexample:
  "table_name_from_endpoint ascii_isupper ascii_islower ascii_lower (ustr ''Obter Clientes'') =
     ustr ''api_obter _clientes'' \<and>
   table_name_spec ''Obter Clientes'' = ''api_obter_clientes'' \<and>
   table_name_from_endpoint ascii_isupper ascii_islower ascii_lower (ustr ''Obter Clientes'') \<noteq>
     ustr (table_name_spec ''Obter Clientes'')"
  by code_simp

text \<open>
  Claim C7, amended. For every operation name and whatever the character tables say,
  \<^verbatim>\<open>table_name_from_endpoint\<close> inserts an underscore before each uppercase letter that is
  preceded by a lowercase letter or followed by a lowercase letter, lower-cases, replaces
  every hyphen by an underscore, trims the underscores at both ends and prefixes \<open>api_\<close>;
  the identifier sanitizer is not applied. (The lower case of the underscore is the
  underscore.) On an ASCII name only the ASCII part of the tables matters; in particular
  \<open>ObterClientesAtivos\<close> becomes \<open>api_obter_clientes_ativos\<close>.
\<close>

theorem table_name_from_endpoint_refines:
  "(lower (cp CHR ''_'') = [cp CHR ''_''] \<longrightarrow>
      table_name_from_endpoint isupper islower lower e =
        ustr ''api_'' @ strip_chars (\<lambda>c. c = cp CHR ''_'')
          (map (\<lambda>c. if c = cp CHR ''-'' then cp CHR ''_'' else c)
             (concat (map lower (insert_boundaries isupper islower (cp CHR ''_'') None e))))) \<and>
   (agree_on_ascii isupper islower lower \<and> (\<forall>c\<in>set e. c < 128) \<longrightarrow>
      table_name_from_endpoint isupper islower lower e =
        table_name_from_endpoint ascii_isupper ascii_islower ascii_lower e) \<and>
   (agree_on_ascii isupper islower lower \<longrightarrow>
      table_name_from_endpoint isupper islower lower (ustr ''ObterClientesAtivos'') =
        ustr ''api_obter_clientes_ativos'')"
proof (intro conjI impI)
  assume "lower (cp CHR ''_'') = [cp CHR ''_'']"
  then show "table_name_from_endpoint isupper islower lower e =
        ustr ''api_'' @ strip_chars (\<lambda>c. c = cp CHR ''_'')
          (map (\<lambda>c. if c = cp CHR ''-'' then cp CHR ''_'' else c)
             (concat (map lower (insert_boundaries isupper islower (cp CHR ''_'') None e))))"
    by (rule table_name_from_endpoint_spec_words)
next
  assume "agree_on_ascii isupper islower lower \<and> (\<forall>c\<in>set e. c < 128)"
  then show "table_name_from_endpoint isupper islower lower e =
        table_name_from_endpoint ascii_isupper ascii_islower ascii_lower e"
    by (simp add: table_name_from_endpoint_ascii)
next
  assume ag: "agree_on_ascii isupper islower lower"
  have asc: "\<forall>c\<in>set (ustr ''ObterClientesAtivos''). c < 128"
    by (simp add: ustr_def cp_def)
  have "table_name_from_endpoint ascii_isupper ascii_islower ascii_lower
          (ustr ''ObterClientesAtivos'') = ustr ''api_obter_clientes_ativos''"
    by code_simp
  with table_name_from_endpoint_ascii[OF ag asc]
  show "table_name_from_endpoint isupper islower lower (ustr ''ObterClientesAtivos'') =
        ustr ''api_obter_clientes_ativos''"
    by simp
qed

theorem table_name_from_endpoint_refines_witness:
  "ascii_lower (cp CHR ''_'') = [cp CHR ''_''] \<and>
   agree_on_ascii ascii_isupper ascii_islower ascii_lower \<and>
   list_all (\<lambda>c. c < 128) (ustr ''getHTTPResponse-Code'') \<and>
   table_name_from_endpoint ascii_isupper ascii_islower ascii_lower (ustr ''getHTTPResponse-Code'') =
     ustr ''api_get_http_response__code'' \<and>
   ustr ''api_'' @ strip_chars (\<lambda>c. c = cp CHR ''_'')
     (map (\<lambda>c. if c = cp CHR ''-'' then cp CHR ''_'' else c)
        (concat (map ascii_lower
           (insert_boundaries ascii_isupper ascii_islower (cp CHR ''_'') None
              (ustr ''getHTTPResponse-Code''))))) =
     ustr ''api_get_http_response__code'' \<and>
   table_name_from_endpoint ascii_isupper ascii_islower ascii_lower (ustr ''ObterClientesAtivos'') =
     ustr ''api_obter_clientes_ativos''"
proof -
  have l: "ascii_lower (cp CHR ''_'') = [cp CHR ''_'']"
    by (simp add: ascii_lower_def ascii_isupper_def cp_def)
  have a: "list_all (\<lambda>c. c < 128) (ustr ''getHTTPResponse-Code'')"
    by (simp add: ustr_def cp_def)
  have e: "table_name_from_endpoint ascii_isupper ascii_islower ascii_lower
             (ustr ''getHTTPResponse-Code'') = ustr ''api_get_http_response__code''"
    by code_simp
  note th = table_name_from_endpoint_refines[where isupper = ascii_isupper
      and islower = ascii_islower and lower = ascii_lower and e = "ustr ''getHTTPResponse-Code''"]
  from th l have r: "table_name_from_endpoint ascii_isupper ascii_islower ascii_lower
       (ustr ''getHTTPResponse-Code'') =
     ustr ''api_'' @ strip_chars (\<lambda>c. c = cp CHR ''_'')
     (map (\<lambda>c. if c = cp CHR ''-'' then cp CHR ''_'' else c)
        (concat (map ascii_lower
           (insert_boundaries ascii_isupper ascii_islower (cp CHR ''_'') None
              (ustr ''getHTTPResponse-Code'')))))"
    by blast
  from th ascii_agrees have o: "table_name_from_endpoint ascii_isupper ascii_islower ascii_lower
      (ustr ''ObterClientesAtivos'') = ustr ''api_obter_clientes_ativos''"
    by blast
  from l ascii_agrees a e r[symmetric, unfolded e] o show ?thesis by (intro conjI)
qed

section \<open>Properties of flattening and extraction\<close>

lemma map_of_dict_update:
  "map_of (dict_update items other) c =
     (case map_of (rev other) c of Some v \<Rightarrow> Some v | None \<Rightarrow> map_of items c)"
  unfolding dict_update_def
proof (induction other arbitrary: items)
  case Nil
  then show ?case by simp
next
  case (Cons p other)
  obtain k v where p: "p = (k, v)" by (cases p)
  show ?case
    by (simp add: p Cons.IH update_conv' map_add_def split: option.splits)
qed

lemma distinct_dict_update:
  "distinct (map fst items) \<Longrightarrow> distinct (map fst (dict_update items other))"
  unfolding dict_update_def
proof (induction other arbitrary: items)
  case Nil
  then show ?case by simp
next
  case (Cons p other)
  obtain k v where p: "p = (k, v)" by (cases p)
  from Cons.prems have "distinct (map fst (AList.update k v items))" by (rule distinct_update)
  then show ?case using Cons.IH by (simp add: p)
qed

lemma flatten_entries_append:
  "flatten_entries parent (xs @ ys) items = flatten_entries parent ys (flatten_entries parent xs items)"
proof (induction xs arbitrary: items)
  case Nil
  then show ?case by simp
next
  case (Cons p xs)
  obtain k v where p: "p = (k, v)" by (cases p)
  show ?case by (simp add: p Cons.IH Let_def)
qed

lemma distinct_flatten_entries:
  "distinct (map fst items) \<Longrightarrow> distinct (map fst (flatten_entries parent ys items))"
proof (induction ys arbitrary: items)
  case Nil
  then show ?case by simp
next
  case (Cons p ys)
  obtain k v where p: "p = (k, v)" by (cases p)
  define nk where "nk = sanitize_col (if parent \<noteq> [] then parent @ ''_'' @ k else k)"
  define items' where "items' = (case v of JDict d \<Rightarrow> dict_update items (flatten_entries nk d [])
                                   | _ \<Rightarrow> AList.update nk v items)"
  have "distinct (map fst items')"
    using Cons.prems by (cases v) (simp_all add: items'_def distinct_update distinct_dict_update)
  then have "distinct (map fst (flatten_entries parent ys items'))" by (rule Cons.IH)
  then show ?case by (simp only: p flatten_entries.simps Let_def nk_def items'_def)
qed

lemma map_of_flatten_entries:
  "map_of (flatten_entries parent ys items) c =
     (case map_of (flatten_entries parent ys []) c of Some v \<Rightarrow> Some v | None \<Rightarrow> map_of items c)"
proof (induction ys arbitrary: items)
  case Nil
  then show ?case by simp
next
  case (Cons p ys)
  obtain k v where p: "p = (k, v)" by (cases p)
  define nk where "nk = sanitize_col (if parent \<noteq> [] then parent @ ''_'' @ k else k)"
  define step where "step = (\<lambda>its. case v of JDict d \<Rightarrow> dict_update its (flatten_entries nk d [])
                                   | _ \<Rightarrow> AList.update nk v its)"
  have unf: "flatten_entries parent (p # ys) its = flatten_entries parent ys (step its)" for its
    by (simp only: p flatten_entries.simps Let_def nk_def step_def)
  have st: "map_of (step its) c = (case map_of (step []) c of Some v \<Rightarrow> Some v | None \<Rightarrow> map_of its c)" for its
    by (cases v) (simp_all add: step_def map_of_dict_update update_conv' split: option.splits)
  have a: "map_of (flatten_entries parent ys (step items)) c =
     (case map_of (flatten_entries parent ys []) c of Some v \<Rightarrow> Some v | None \<Rightarrow> map_of (step items) c)"
    by (rule Cons.IH)
  have b: "map_of (flatten_entries parent ys (step [])) c =
     (case map_of (flatten_entries parent ys []) c of Some v \<Rightarrow> Some v | None \<Rightarrow> map_of (step []) c)"
    by (rule Cons.IH)
  show ?case
    unfolding unf a b st[of items] by (simp split: option.splits)
qed

lemma filter_key_distinct:
  "distinct (map fst al) \<Longrightarrow> map_of al c = Some v \<Longrightarrow> filter (\<lambda>p. fst p = c) al = [(c, v)]"
proof (induction al)
  case Nil
  then show ?case by simp
next
  case (Cons p al)
  obtain k w where p: "p = (k, w)" by (cases p)
  show ?case
  proof (cases "k = c")
    case True
    with Cons.prems p have "c \<notin> fst ` set al" and "w = v" by auto
    then have "filter (\<lambda>p. fst p = c) al = []" by (auto simp add: filter_empty_conv)
    with True p \<open>w = v\<close> show ?thesis by simp
  next
    case False
    with Cons p show ?thesis by simp
  qed
qed

lemma flatten_json_last_wins:
  assumes nd: "\<not> is_dict v2"
    and later: "map_of (flatten_json post []) (sanitize_col k2) = None"
  shows "map_of (flatten_json (pre @ (k2, v2) # post) []) (sanitize_col k2) = Some v2"
proof -
  define c where "c = sanitize_col k2"
  define F where "F = flatten_entries [] pre []"
  have step: "flatten_entries [] ((k2, v2) # post) F = flatten_entries [] post (AList.update c v2 F)"
    using nd by (cases v2) (simp_all add: is_dict_def c_def Let_def)
  have "flatten_json (pre @ (k2, v2) # post) [] = flatten_entries [] post (AList.update c v2 F)"
    by (simp only: flatten_json_def flatten_entries_append F_def[symmetric] step)
  moreover have "map_of (flatten_entries [] post (AList.update c v2 F)) c =
      (case map_of (flatten_entries [] post []) c of Some v \<Rightarrow> Some v
       | None \<Rightarrow> map_of (AList.update c v2 F) c)"
    by (rule map_of_flatten_entries)
  moreover have "map_of (flatten_entries [] post []) c = None"
    using later by (simp only: flatten_json_def c_def)
  ultimately show ?thesis by (simp add: c_def[symmetric] update_conv')
qed

lemma distinct_flatten_json: "distinct (map fst (flatten_json obj parent))"
  unfolding flatten_json_def by (rule distinct_flatten_entries) simp

lemma map_of_flatten_entries_cong:
  assumes "map_of items1 = map_of items2"
  shows "map_of (flatten_entries parent ys items1) = map_of (flatten_entries parent ys items2)"
proof
  fix x
  show "map_of (flatten_entries parent ys items1) x = map_of (flatten_entries parent ys items2) x"
    using assms
    by (simp add: map_of_flatten_entries[of parent ys items1 x]
          map_of_flatten_entries[of parent ys items2 x] split: option.splits)
qed

lemma flatten_entries_plain:
  "\<not> is_dict v \<Longrightarrow>
   flatten_entries [] ((k, v) # rest) items =
     flatten_entries [] rest (AList.update (sanitize_col k) v items)"
  by (cases v) (simp_all add: is_dict_def Let_def)

lemma flatten_json_earlier_dropped:
  assumes "sanitize_col k1 = sanitize_col k2" and "\<not> is_dict v1" and "\<not> is_dict v2"
  shows "map_of (flatten_json (pre @ (k1, v1) # mid @ (k2, v2) # post) []) =
         map_of (flatten_json (pre @ mid @ (k2, v2) # post) [])"
proof -
  define c where "c = sanitize_col k2"
  define A where "A = flatten_entries [] pre []"
  define B1 where "B1 = flatten_entries [] mid (AList.update c v1 A)"
  define B0 where "B0 = flatten_entries [] mid A"
  have l: "flatten_json (pre @ (k1, v1) # mid @ (k2, v2) # post) [] =
           flatten_entries [] post (AList.update c v2 B1)"
    using assms
    by (simp add: flatten_json_def flatten_entries_append flatten_entries_plain
          A_def B1_def c_def del: flatten_entries.simps)
  have r: "flatten_json (pre @ mid @ (k2, v2) # post) [] =
           flatten_entries [] post (AList.update c v2 B0)"
    using assms
    by (simp add: flatten_json_def flatten_entries_append flatten_entries_plain
          A_def B0_def c_def del: flatten_entries.simps)
  have "map_of (AList.update c v2 B1) = map_of (AList.update c v2 B0)"
  proof
    fix x
    show "map_of (AList.update c v2 B1) x = map_of (AList.update c v2 B0) x"
      by (simp add: update_conv' B1_def B0_def
            map_of_flatten_entries[of "[]" mid "AList.update c v1 A" x]
            map_of_flatten_entries[of "[]" mid A x] split: option.splits)
  qed
  then show ?thesis unfolding l r by (rule map_of_flatten_entries_cong)
qed

text \<open>
  Claim C10, as stated, fails in three ways. When the key processed last holds a nested
  object, the object is flattened under compound keys and the column keeps the value of
  the earlier key: \<open>a b\<close> bound to 1 and \<open>a_b\<close> bound to an object with the field \<open>x\<close>
  give the columns \<open>a_b\<close> = 1 and \<open>a_b_x\<close>. When the earlier key holds a nested object,
  its value is not dropped but stays under its compound key. And a key processed after
  the two may flatten to the same identifier and take the column: with \<open>a\<close> bound to an
  object with the field \<open>b\<close> last, column \<open>a_b\<close> holds the value of that field.
\<close>

theorem flatten_json_nested_counterexample:
  "sanitize_col ''a b'' = ''a_b'' \<and> sanitize_col ''a_b'' = ''a_b'' \<and>
   flatten_json [(''a b'', JInt 1), (''a_b'', JDict [(''x'', JInt 2)])] [] =
     [(''a_b'', JInt 1), (''a_b_x'', JInt 2)] \<and>
   flatten_json [(''a b'', JDict [(''x'', JInt 1)]), (''a_b'', JInt 2)] [] =
     [(''a_b_x'', JInt 1), (''a_b'', JInt 2)] \<and>
   flatten_json [(''a b'', JInt 1), (''a_b'', JInt 2), (''a'', JDict [(''b'', JInt 3)])] [] =
     [(''a_b'', JInt 3)]"
  by code_simp

text \<open>
  Claim C10, amended. If a source object has two distinct raw keys that sanitize to the
  same identifier and neither holds a nested object, then the flattened record never
  has two columns of the same name and no error is raised; the value of the earlier key
  is silently dropped, that is, the record binds every column as it would if the earlier
  key were not in the object; and when no key after the later one flattens to the
  identifier, the record has exactly one column under it, bound to the value of the
  later key.
\<close>

theorem flatten_json_collision:
  assumes "k1 \<noteq> k2" and "sanitize_col k1 = sanitize_col k2"
    and "\<not> is_dict v1" and "\<not> is_dict v2"
  shows "distinct (map fst (flatten_json (pre @ (k1, v1) # mid @ (k2, v2) # post) [])) \<and>
         map_of (flatten_json (pre @ (k1, v1) # mid @ (k2, v2) # post) []) =
           map_of (flatten_json (pre @ mid @ (k2, v2) # post) []) \<and>
         (map_of (flatten_json post []) (sanitize_col k2) = None \<longrightarrow>
            filter (\<lambda>p. fst p = sanitize_col k2)
              (flatten_json (pre @ (k1, v1) # mid @ (k2, v2) # post) []) =
            [(sanitize_col k2, v2)])"
proof (intro conjI impI)
  let ?r = "flatten_json (pre @ (k1, v1) # mid @ (k2, v2) # post) []"
  show d: "distinct (map fst ?r)" by (rule distinct_flatten_json)
  show "map_of ?r = map_of (flatten_json (pre @ mid @ (k2, v2) # post) [])"
    using assms(2,3,4) by (rule flatten_json_earlier_dropped)
  assume later: "map_of (flatten_json post []) (sanitize_col k2) = None"
  have "map_of (flatten_json ((pre @ (k1, v1) # mid) @ (k2, v2) # post) []) (sanitize_col k2) = Some v2"
    using assms(4) later by (rule flatten_json_last_wins)
  then have "map_of ?r (sanitize_col k2) = Some v2" by simp
  with d show "filter (\<lambda>p. fst p = sanitize_col k2) ?r = [(sanitize_col k2, v2)]"
    by (rule filter_key_distinct)
qed

theorem flatten_json_collision_witness:
  "''a b'' \<noteq> ''a_b'' \<and> sanitize_col ''a b'' = sanitize_col ''a_b'' \<and>
   \<not> is_dict (JInt 1) \<and> \<not> is_dict (JInt 2) \<and>
   map_of (flatten_json [] []) (sanitize_col ''a_b'') = None \<and>
   flatten_json [(''a b'', JInt 1), (''a_b'', JInt 2)] [] = [(''a_b'', JInt 2)] \<and>
   map_of (flatten_json ([] @ (''a b'', JInt 1) # [] @ (''a_b'', JInt 2) # []) []) =
     map_of (flatten_json ([] @ [] @ (''a_b'', JInt 2) # []) []) \<and>
   filter (\<lambda>p. fst p = sanitize_col ''a_b'')
     (flatten_json ([] @ (''a b'', JInt 1) # [] @ (''a_b'', JInt 2) # []) []) =
     [(sanitize_col ''a_b'', JInt 2)]"
proof -
  have h1: "''a b'' \<noteq> ''a_b''" by simp
  have h2: "sanitize_col ''a b'' = sanitize_col ''a_b''" by code_simp
  have h3: "\<not> is_dict (JInt 1)" by (simp add: is_dict_def)
  have h4: "\<not> is_dict (JInt 2)" by (simp add: is_dict_def)
  have h5: "map_of (flatten_json [] []) (sanitize_col ''a_b'') = None" by (simp add: flatten_json_def)
  have e: "flatten_json [(''a b'', JInt 1), (''a_b'', JInt 2)] [] = [(''a_b'', JInt 2)]" by code_simp
  from flatten_json_collision [OF h1 h2 h3 h4, where pre = "[]" and mid = "[]" and post = "[]"]
    h1 h2 h3 h4 h5 e
  show ?thesis by blast
qed

lemma sanitize_valor: "sanitize_col ''valor'' = ''valor''"
  by code_simp

lemma flatten_single_scalar:
  "\<not> is_dict v \<Longrightarrow> flatten_json [(''valor'', v)] [] = [(''valor'', v)]"
  by (cases v) (simp_all add: flatten_json_def is_dict_def Let_def sanitize_valor)

text \<open>
  Claim C5. \<^verbatim>\<open>extract_rows_from_payload\<close> dispatches on the shape of the payload: an object
  whose key \<open>dados\<close> holds an array uses that array, an array is used as it is, any other
  object is a single record, and a scalar becomes one record with the single field
  \<open>valor\<close>. An element that is an object is flattened, any other element becomes a record
  with the field \<open>valor\<close>. The payload with \<open>dados\<close> holding the one object with
  \<open>Nome\<close> = Ana and \<open>Idade\<close> = 30 yields the single record with \<open>nome\<close> = Ana and
  \<open>idade\<close> = 30, whose column types are \<open>varchar(255)\<close> and \<open>bigint\<close>.
\<close>

theorem extract_rows_dispatch:
  "(map_of d ''dados'' = Some (JList xs) \<longrightarrow>
      extract_rows_from_payload (JDict d) = map row_of_item xs) \<and>
   extract_rows_from_payload (JList ys) = map row_of_item ys \<and>
   ((\<forall>zs. map_of d' ''dados'' \<noteq> Some (JList zs)) \<longrightarrow>
      extract_rows_from_payload (JDict d') = [flatten_json d' []]) \<and>
   (\<not> is_dict v \<and> \<not> is_list v \<longrightarrow> extract_rows_from_payload v = [[(''valor'', v)]]) \<and>
   row_of_item (JDict o1) = flatten_json o1 [] \<and>
   (\<not> is_dict w \<longrightarrow> row_of_item w = [(''valor'', w)]) \<and>
   extract_rows_from_payload
     (JDict [(''dados'', JList [JDict [(''Nome'', JStr ''Ana''), (''Idade'', JInt 30)]])]) =
     [[(''nome'', JStr ''Ana''), (''idade'', JInt 30)]] \<and>
   col_type [[(''nome'', JStr ''Ana''), (''idade'', JInt 30)]] ''nome'' = ''varchar(255)'' \<and>
   col_type [[(''nome'', JStr ''Ana''), (''idade'', JInt 30)]] ''idade'' = ''bigint''"
proof (intro conjI impI)
  assume "map_of d ''dados'' = Some (JList xs)"
  then show "extract_rows_from_payload (JDict d) = map row_of_item xs"
    by (simp add: extract_rows_from_payload_def)
next
  show "extract_rows_from_payload (JList ys) = map row_of_item ys"
    by (simp add: extract_rows_from_payload_def)
next
  assume no: "\<forall>zs. map_of d' ''dados'' \<noteq> Some (JList zs)"
  have "(case map_of d' ''dados'' of Some (JList xs) \<Rightarrow> xs | _ \<Rightarrow> [JDict d']) = [JDict d']"
  proof (cases "map_of d' ''dados''")
    case None
    then show ?thesis by simp
  next
    case (Some j)
    with no show ?thesis by (cases j) simp_all
  qed
  then show "extract_rows_from_payload (JDict d') = [flatten_json d' []]"
    by (simp add: extract_rows_from_payload_def row_of_item_def)
next
  assume "\<not> is_dict v \<and> \<not> is_list v"
  then show "extract_rows_from_payload v = [[(''valor'', v)]]"
    by (cases v)
       (simp_all add: extract_rows_from_payload_def row_of_item_def is_dict_def is_list_def
          flatten_single_scalar)
next
  show "row_of_item (JDict o1) = flatten_json o1 []"
    by (simp add: row_of_item_def)
next
  assume "\<not> is_dict w"
  then show "row_of_item w = [(''valor'', w)]"
    by (cases w) (simp_all add: row_of_item_def is_dict_def)
next
  show "extract_rows_from_payload
     (JDict [(''dados'', JList [JDict [(''Nome'', JStr ''Ana''), (''Idade'', JInt 30)]])]) =
     [[(''nome'', JStr ''Ana''), (''idade'', JInt 30)]]"
    by code_simp
next
  show "col_type [[(''nome'', JStr ''Ana''), (''idade'', JInt 30)]] ''nome'' = ''varchar(255)''"
    by (simp add: col_type_def col_step_def try_parse_timestamp_def)
next
  show "col_type [[(''nome'', JStr ''Ana''), (''idade'', JInt 30)]] ''idade'' = ''bigint''"
    by (simp add: col_type_def col_step_def)
qed

theorem extract_rows_dispatch_witness:
  "map_of [(''dados'', JList [JInt 7])] ''dados'' = Some (JList [JInt 7]) \<and>
   extract_rows_from_payload (JDict [(''dados'', JList [JInt 7])]) = [[(''valor'', JInt 7)]] \<and>
   (\<forall>zs. map_of [(''dados'', JInt 3)] ''dados'' \<noteq> Some (JList zs)) \<and>
   extract_rows_from_payload (JDict [(''dados'', JInt 3)]) = [[(''dados'', JInt 3)]] \<and>
   \<not> is_dict (JStr ''x'') \<and> \<not> is_list (JStr ''x'') \<and>
   extract_rows_from_payload (JStr ''x'') = [[(''valor'', JStr ''x'')]] \<and>
   row_of_item (JStr ''x'') = [(''valor'', JStr ''x'')]"
proof -
  have f: "flatten_json [(''dados'', JInt 3)] [] = [(''dados'', JInt 3)]" by code_simp
  from extract_rows_dispatch
    [of "[(''dados'', JList [JInt 7])]" "[JInt 7]" "[]" "[(''dados'', JInt 3)]" "JStr ''x''" "[]" "JStr ''x''"]
  show ?thesis by (simp add: f is_dict_def is_list_def row_of_item_def)
qed

section \<open>The orphan cleanup on two inputs\<close>

text \<open>
  Claim C6 fails on the code at two inputs. First: with the namespaces \<open>public\<close>,
  \<open>pgshop\<close> and \<open>old\<close>, nothing to keep and no failure, \<open>old\<close> is dropped and \<open>pgshop\<close>
  is not, although it is neither kept nor one of the protected names: the listing query
  hides it, since the underscore of its pattern matches any character. Second: with the
  namespaces \<open>public\<close>, \<open>old_a\<close> and \<open>old_b\<close>, nothing to keep, and a database that
  refuses to drop \<open>old_a\<close> only, \<open>old_b\<close> is not dropped either: the failed drop leaves
  the transaction failed, and the drop of \<open>old_b\<close> raises as well.
\<close>

theorem drop_orphan_schemas_failing_inputs:
  "drop_orphan_schemas strip (\<lambda>s. False) [''public'', ''pgshop'', ''old''] [] =
     ([''public'', ''pgshop''], 1, [Removed ''old'']) \<and>
   ''pgshop'' \<notin> set protected \<and>
   drop_orphan_schemas strip (\<lambda>s. s = ''old_a'') [''public'', ''old_a'', ''old_b''] [] =
     ([''public'', ''old_a'', ''old_b''], 0, [Failed ''old_a'', Failed ''old_b''])"
  by (simp add: drop_orphan_schemas_def keep_names_def list_schemas_def like_pg_def protected_def)

section \<open>Properties of the batch loader\<close>

lemma insert_rows_batch_unfold:
  "rs \<noteq> [] \<Longrightarrow>
   insert_rows_batch af insf conn schema table endpoint rs batch_size recreate =
     (case add_missing af schema table (col_type rs)
             (get_existing_columns (prepared conn schema table recreate) schema table)
             (all_cols_of rs) (prepared conn schema table recreate) of
        (c4, Inl e) \<Rightarrow> (c4, Inl e)
      | (c4, Inr u) \<Rightarrow>
          if batch_size = 0 then (c4, Inl ValueError)
          else (case insert_chunks insf schema table endpoint (all_cols_of rs)
                       (chunks_of rs batch_size) c4 0 of
                  (c5, Inl e) \<Rightarrow> (c5, Inl e)
                | (c5, Inr tot) \<Rightarrow> (commit c5, Inr tot)))"
  by (simp add: insert_rows_batch_def prepared_def Let_def)

lemma prepared_committed:
  "committed (prepared conn schema table recreate) = working (prepared conn schema table recreate)"
  by (simp add: prepared_def ensure_table_base_def commit_def Let_def)

lemma prepared_table:
  "tables (working (prepared conn schema table recreate)) (schema, table) =
     Some \<lparr>t_columns = columns_before conn schema table recreate,
           t_rows = rows_before conn schema table recreate\<rparr>"
  by (cases "tables (working conn) (schema, table)")
     (simp_all add: prepared_def ensure_schema_def drop_table_if_exists_def ensure_table_base_def
        commit_def Let_def rows_before_def columns_before_def table_rows_def table_columns_def)

lemma existing_prepared:
  "get_existing_columns (prepared conn schema table recreate) schema table =
     map fst (columns_before conn schema table recreate)"
  by (simp add: get_existing_columns_def prepared_table)

lemma add_missing_result:
  assumes "\<forall>x\<in>set cs. x \<notin> set E \<longrightarrow> x \<notin> fst ` set (t_columns T)"
    and "distinct cs"
    and "committed c = working c"
    and "tables (working c) (s, t) = Some T"
  shows "case add_missing af s t types E cs c of
           (c', Inr u) \<Rightarrow>
             committed c' = working c' \<and>
             tables (working c') (s, t) =
               Some (T\<lparr>t_columns := t_columns T @ map (\<lambda>x. (x, types x)) (filter (\<lambda>x. x \<notin> set E) cs)\<rparr>)
         | (c', Inl e) \<Rightarrow>
             committed c' = working c' \<and>
             (\<exists>pre x post. cs = pre @ x # post \<and> x \<notin> set E \<and> e = AddColumnError x \<and>
                tables (working c') (s, t) =
                  Some (T\<lparr>t_columns := t_columns T @
                           map (\<lambda>x. (x, types x)) (filter (\<lambda>x. x \<notin> set E) pre)\<rparr>))"
  using assms
proof (induction cs arbitrary: c T)
  case Nil
  then show ?case by simp
next
  case (Cons x cs)
  show ?case
  proof (cases "x \<in> set E")
    case True
    from Cons.prems have inv: "\<forall>y\<in>set cs. y \<notin> set E \<longrightarrow> y \<notin> fst ` set (t_columns T)"
      and d: "distinct cs" by simp_all
    from Cons.IH[OF inv d Cons.prems(3) Cons.prems(4)]
    have ih: "case add_missing af s t types E cs c of
           (c', Inr u) \<Rightarrow>
             committed c' = working c' \<and>
             tables (working c') (s, t) =
               Some (T\<lparr>t_columns := t_columns T @ map (\<lambda>x. (x, types x)) (filter (\<lambda>x. x \<notin> set E) cs)\<rparr>)
         | (c', Inl e) \<Rightarrow>
             committed c' = working c' \<and>
             (\<exists>pre x post. cs = pre @ x # post \<and> x \<notin> set E \<and> e = AddColumnError x \<and>
                tables (working c') (s, t) =
                  Some (T\<lparr>t_columns := t_columns T @
                           map (\<lambda>x. (x, types x)) (filter (\<lambda>x. x \<notin> set E) pre)\<rparr>))" .
    obtain c' r where res: "add_missing af s t types E cs c = (c', r)" by (cases "add_missing af s t types E cs c")
    show ?thesis
    proof (cases r)
      case (Inr u)
      with ih res True show ?thesis by simp
    next
      case (Inl e)
      with ih res obtain pre y post where
        com: "committed c' = working c'" and
        sp: "cs = pre @ y # post" and ny: "y \<notin> set E" and e: "e = AddColumnError y" and
        tb: "tables (working c') (s, t) =
                  Some (T\<lparr>t_columns := t_columns T @
                           map (\<lambda>x. (x, types x)) (filter (\<lambda>x. x \<notin> set E) pre)\<rparr>)"
        by auto
      have "x # cs = (x # pre) @ y # post" using sp by simp
      moreover have "tables (working c') (s, t) =
                  Some (T\<lparr>t_columns := t_columns T @
                           map (\<lambda>x. (x, types x)) (filter (\<lambda>x. x \<notin> set E) (x # pre))\<rparr>)"
        using tb True by simp
      ultimately have "\<exists>pre y post. x # cs = pre @ y # post \<and> y \<notin> set E \<and> e = AddColumnError y \<and>
                tables (working c') (s, t) =
                  Some (T\<lparr>t_columns := t_columns T @
                           map (\<lambda>x. (x, types x)) (filter (\<lambda>x. x \<notin> set E) pre)\<rparr>)"
        using ny e by blast
      with res Inl True com show ?thesis by simp
    qed
  next
    case False
    show ?thesis
    proof (cases "af c x (types x)")
      case True
      have "x # cs = [] @ x # cs" by simp
      moreover have "tables (working c) (s, t) =
          Some (T\<lparr>t_columns := t_columns T @ map (\<lambda>x. (x, types x)) (filter (\<lambda>x. x \<notin> set E) [])\<rparr>)"
        using Cons.prems(4) by simp
      ultimately have "\<exists>pre y post. x # cs = pre @ y # post \<and> y \<notin> set E \<and>
                AddColumnError x = AddColumnError y \<and>
                tables (working c) (s, t) =
                  Some (T\<lparr>t_columns := t_columns T @
                           map (\<lambda>x. (x, types x)) (filter (\<lambda>x. x \<notin> set E) pre)\<rparr>)"
        using False by blast
      with True False Cons.prems(3) show ?thesis by (simp add: add_column_def)
    next
      case nf: False
      define T' where "T' = T\<lparr>t_columns := t_columns T @ [(x, types x)]\<rparr>"
      define c1 where "c1 = commit (c\<lparr>working := (working c)\<lparr>tables := (tables (working c))((s, t) \<mapsto> T')\<rparr>\<rparr>)"
      from Cons.prems(1) False have fresh: "x \<notin> fst ` set (t_columns T)" by simp
      then have ac: "add_column af c s t x (types x) = (c1, Inr ())"
        using nf Cons.prems(4) by (simp add: add_column_def Let_def c1_def T'_def)
      have com1: "committed c1 = working c1" by (simp add: c1_def commit_def)
      have tb1: "tables (working c1) (s, t) = Some T'" by (simp add: c1_def commit_def)
      from Cons.prems(1,2) have inv1: "\<forall>y\<in>set cs. y \<notin> set E \<longrightarrow> y \<notin> fst ` set (t_columns T')"
        by (auto simp add: T'_def)
      from Cons.prems(2) have d: "distinct cs" by simp
      from Cons.IH[OF inv1 d com1 tb1]
      have ih: "case add_missing af s t types E cs c1 of
           (c', Inr u) \<Rightarrow>
             committed c' = working c' \<and>
             tables (working c') (s, t) =
               Some (T'\<lparr>t_columns := t_columns T' @ map (\<lambda>x. (x, types x)) (filter (\<lambda>x. x \<notin> set E) cs)\<rparr>)
         | (c', Inl e) \<Rightarrow>
             committed c' = working c' \<and>
             (\<exists>pre x post. cs = pre @ x # post \<and> x \<notin> set E \<and> e = AddColumnError x \<and>
                tables (working c') (s, t) =
                  Some (T'\<lparr>t_columns := t_columns T' @
                           map (\<lambda>x. (x, types x)) (filter (\<lambda>x. x \<notin> set E) pre)\<rparr>))" .
      have unf: "add_missing af s t types E (x # cs) c = add_missing af s t types E cs c1"
        using False ac by simp
      obtain c' r where res: "add_missing af s t types E cs c1 = (c', r)"
        by (cases "add_missing af s t types E cs c1")
      show ?thesis
      proof (cases r)
        case (Inr u)
        with ih res False show ?thesis unfolding unf by (simp add: T'_def)
      next
        case (Inl e)
        with ih res obtain pre y post where
          com: "committed c' = working c'" and
          sp: "cs = pre @ y # post" and ny: "y \<notin> set E" and e: "e = AddColumnError y" and
          tb: "tables (working c') (s, t) =
                  Some (T'\<lparr>t_columns := t_columns T' @
                           map (\<lambda>x. (x, types x)) (filter (\<lambda>x. x \<notin> set E) pre)\<rparr>)"
          by auto
        have "x # cs = (x # pre) @ y # post" using sp by simp
        moreover have "tables (working c') (s, t) =
                  Some (T\<lparr>t_columns := t_columns T @
                           map (\<lambda>x. (x, types x)) (filter (\<lambda>x. x \<notin> set E) (x # pre))\<rparr>)"
          using tb False by (simp add: T'_def)
        ultimately have "\<exists>pre y post. x # cs = pre @ y # post \<and> y \<notin> set E \<and> e = AddColumnError y \<and>
                tables (working c') (s, t) =
                  Some (T\<lparr>t_columns := t_columns T @
                           map (\<lambda>x. (x, types x)) (filter (\<lambda>x. x \<notin> set E) pre)\<rparr>)"
          using ny e by blast
        with res Inl com show ?thesis unfolding unf by simp
      qed
    qed
  qed
qed

lemma add_missing_no_failure:
  "(\<forall>cn x ty. \<not> af cn x ty) \<Longrightarrow> \<exists>c'. add_missing af s t types E cs c = (c', Inr ())"
  by (induction cs arbitrary: c) (auto simp add: add_column_def Let_def)

lemma add_missing_failure:
  "x \<in> set cs \<Longrightarrow> x \<notin> set E \<Longrightarrow> (\<forall>cn. af cn x (types x)) \<Longrightarrow>
   \<exists>c' e. add_missing af s t types E cs c = (c', Inl e)"
proof (induction cs arbitrary: c)
  case Nil
  then show ?case by simp
next
  case (Cons y cs)
  show ?case
  proof (cases "y = x")
    case True
    with Cons.prems show ?thesis by (simp add: add_column_def)
  next
    case False
    with Cons.prems have xin: "x \<in> set cs" by simp
    show ?thesis
    proof (cases "y \<in> set E")
      case True
      with Cons.IH[OF xin Cons.prems(2,3)] show ?thesis by simp
    next
      case nE: False
      show ?thesis
      proof (cases "add_column af c s t y (types y)")
        case (Pair c1 r)
        show ?thesis
        proof (cases r)
          case (Inl e)
          with Pair nE show ?thesis by simp
        next
          case (Inr u)
          from Cons.IH[OF xin Cons.prems(2,3), of c1] Pair Inr nE show ?thesis by simp
        qed
      qed
    qed
  qed
qed

lemma insert_chunks_result:
  assumes "tables (working c) (s, t) = Some T"
  shows "case insert_chunks insf s t ep cols chunks c tot of
           (c', Inr n) \<Rightarrow>
             committed c' = committed c \<and> n = tot + length (concat chunks) \<and>
             tables (working c') (s, t) =
               Some (T\<lparr>t_rows := t_rows T @ map (row_values ep cols) (concat chunks)\<rparr>)
         | (c', Inl e) \<Rightarrow> committed c' = committed c \<and> e = InsertError"
  using assms
proof (induction chunks arbitrary: c T tot)
  case Nil
  then show ?case by simp
next
  case (Cons chunk chunks)
  show ?case
  proof (cases "insf c (map (row_values ep cols) chunk)")
    case True
    then show ?thesis by (simp add: executemany_def)
  next
    case False
    define T' where "T' = T\<lparr>t_rows := t_rows T @ map (row_values ep cols) chunk\<rparr>"
    define c1 where "c1 = c\<lparr>working := (working c)\<lparr>tables := (tables (working c))((s, t) \<mapsto> T')\<rparr>\<rparr>"
    have ex: "executemany insf c s t (map (row_values ep cols) chunk) = (c1, Inr ())"
      using False Cons.prems by (simp add: executemany_def Let_def c1_def T'_def)
    have tb1: "tables (working c1) (s, t) = Some T'" by (simp add: c1_def)
    have com1: "committed c1 = committed c" by (simp add: c1_def)
    have unf: "insert_chunks insf s t ep cols (chunk # chunks) c tot =
               insert_chunks insf s t ep cols chunks c1 (tot + length chunk)"
      using ex by simp
    from Cons.IH[OF tb1, of "tot + length chunk"]
    have ih: "case insert_chunks insf s t ep cols chunks c1 (tot + length chunk) of
           (c', Inr n) \<Rightarrow>
             committed c' = committed c1 \<and> n = tot + length chunk + length (concat chunks) \<and>
             tables (working c') (s, t) =
               Some (T'\<lparr>t_rows := t_rows T' @ map (row_values ep cols) (concat chunks)\<rparr>)
         | (c', Inl e) \<Rightarrow> committed c' = committed c1 \<and> e = InsertError" .
    obtain c' r where res: "insert_chunks insf s t ep cols chunks c1 (tot + length chunk) = (c', r)"
      by (cases "insert_chunks insf s t ep cols chunks c1 (tot + length chunk)")
    show ?thesis
    proof (cases r)
      case (Inl e)
      with ih res com1 show ?thesis unfolding unf by simp
    next
      case (Inr n)
      with ih res com1 show ?thesis unfolding unf by (simp add: T'_def)
    qed
  qed
qed

lemma insert_chunks_no_failure:
  "(\<forall>cn v. \<not> insf cn v) \<Longrightarrow> \<exists>c' n. insert_chunks insf s t ep cols chunks c tot = (c', Inr n)"
  by (induction chunks arbitrary: c tot) (auto simp add: executemany_def Let_def)

lemma insert_chunks_failure:
  "chunk \<in> set chunks \<Longrightarrow> (\<forall>cn. insf cn (map (row_values ep cols) chunk)) \<Longrightarrow>
   \<exists>c'. insert_chunks insf s t ep cols chunks c tot = (c', Inl InsertError)"
proof (induction chunks arbitrary: c tot)
  case Nil
  then show ?case by simp
next
  case (Cons k chunks)
  show ?case
  proof (cases "insf c (map (row_values ep cols) k)")
    case True
    then show ?thesis by (simp add: executemany_def)
  next
    case False
    with Cons.prems have "chunk \<in> set chunks" by auto
    from Cons.IH[OF this Cons.prems(2)] False show ?thesis
      by (simp add: executemany_def Let_def)
  qed
qed

text \<open>The chunks of the loop, one after the other, are the records.\<close>

lemma filter_mod_shift:
  assumes "0 < b"
  shows "filter (\<lambda>i. i mod b = 0) [0..<n] =
           (if n = 0 then [] else 0 # map (\<lambda>i. i + b) (filter (\<lambda>i. i mod b = 0) [0..<n - b]))"
proof (cases "n = 0")
  case True
  then show ?thesis by simp
next
  case False
  then have n: "0 < n" by simp
  have split: "[0..<n] = 0 # [1..<n]" using n by (simp add: upt_rec)
  show ?thesis
  proof (cases "b \<le> n")
    case True
    have "[1..<n] = [1..<b] @ [b..<n]"
      using True assms by (metis Suc_leI One_nat_def upt_add_eq_append le_add_diff_inverse)
    moreover have "filter (\<lambda>i. i mod b = 0) [1..<b] = []"
      by (auto simp add: filter_empty_conv)
    moreover have "[b..<n] = map (\<lambda>i. i + b) [0..<n - b]"
      using True by (simp add: map_add_upt)
    ultimately have "filter (\<lambda>i. i mod b = 0) [1..<n] =
                     filter (\<lambda>i. i mod b = 0) (map (\<lambda>i. i + b) [0..<n - b])"
      by simp
    also have "\<dots> = map (\<lambda>i. i + b) (filter (\<lambda>i. i mod b = 0) [0..<n - b])"
      by (simp add: filter_map comp_def)
    finally show ?thesis using n split by simp
  next
    case nb: False
    then have "filter (\<lambda>i. i mod b = 0) [1..<n] = []"
      by (auto simp add: filter_empty_conv)
    moreover from nb have "n - b = 0" by simp
    ultimately show ?thesis using n split by simp
  qed
qed

lemma chunks_of_rec:
  assumes "0 < b"
  shows "chunks_of rs b = (if rs = [] then [] else take (nat b) rs # chunks_of (drop (nat b) rs) b)"
proof -
  from assms have nb: "0 < nat b" by simp
  show ?thesis
    using assms filter_mod_shift[OF nb, of "length rs"]
    by (simp add: chunks_of_def comp_def add.commute)
qed

lemma concat_chunks_of: "0 < b \<Longrightarrow> concat (chunks_of rs b) = rs"
proof (induction "length rs" arbitrary: rs rule: less_induct)
  case less
  show ?case
  proof (cases "rs = []")
    case True
    then show ?thesis by (simp add: chunks_of_def)
  next
    case False
    from less.prems have "0 < nat b" by simp
    with False have "length (drop (nat b) rs) < length rs" by simp
    from less.hyps[OF this less.prems]
    have "concat (chunks_of (drop (nat b) rs) b) = drop (nat b) rs" .
    then show ?thesis
      using False by (subst chunks_of_rec[OF less.prems]) simp
  qed
qed

lemma chunks_of_nonpos: "b \<le> 0 \<Longrightarrow> chunks_of rs b = []"
  by (simp add: chunks_of_def)

lemma distinct_all_cols_of: "distinct (all_cols_of rs)"
  by (simp add: all_cols_of_def)

lemma insert_rows_batch_outcome:
  assumes "rs \<noteq> []"
  shows "case insert_rows_batch af insf conn s t ep rs b rc of
           (c', Inr n) \<Rightarrow>
             b \<noteq> 0 \<and> n = length (concat (chunks_of rs b)) \<and>
             tables (committed c') (s, t) =
               Some \<lparr>t_columns = columns_after conn s t rc rs (all_cols_of rs),
                     t_rows = rows_before conn s t rc @
                              map (row_values ep (all_cols_of rs)) (concat (chunks_of rs b))\<rparr>
         | (c', Inl e) \<Rightarrow>
             (case e of
                AddColumnError x \<Rightarrow>
                  (\<exists>pre post. all_cols_of rs = pre @ x # post \<and>
                     x \<notin> set (map fst (columns_before conn s t rc)) \<and>
                     tables (committed c') (s, t) =
                       Some \<lparr>t_columns = columns_after conn s t rc rs pre,
                             t_rows = rows_before conn s t rc\<rparr>)
              | InsertError \<Rightarrow>
                  b \<noteq> 0 \<and>
                  tables (committed c') (s, t) =
                    Some \<lparr>t_columns = columns_after conn s t rc rs (all_cols_of rs),
                          t_rows = rows_before conn s t rc\<rparr>
              | ValueError \<Rightarrow>
                  b = 0 \<and>
                  tables (committed c') (s, t) =
                    Some \<lparr>t_columns = columns_after conn s t rc rs (all_cols_of rs),
                          t_rows = rows_before conn s t rc\<rparr>)"
proof -
  define c3 where "c3 = prepared conn s t rc"
  define T where "T = \<lparr>t_columns = columns_before conn s t rc, t_rows = rows_before conn s t rc\<rparr>"
  define E where "E = map fst (columns_before conn s t rc)"
  define cols where "cols = all_cols_of rs"
  have com3: "committed c3 = working c3" by (simp add: c3_def prepared_committed)
  have tb3: "tables (working c3) (s, t) = Some T" by (simp add: c3_def T_def prepared_table)
  have ex: "get_existing_columns c3 s t = E" by (simp add: c3_def E_def existing_prepared)
  have inv: "\<forall>x\<in>set cols. x \<notin> set E \<longrightarrow> x \<notin> fst ` set (t_columns T)"
    by (simp add: E_def T_def)
  have d: "distinct cols" by (simp add: cols_def distinct_all_cols_of)
  note am = add_missing_result[OF inv d com3 tb3, where af = af and types = "col_type rs"]
  have unf: "insert_rows_batch af insf conn s t ep rs b rc =
     (case add_missing af s t (col_type rs) E cols c3 of
        (c4, Inl e) \<Rightarrow> (c4, Inl e)
      | (c4, Inr u) \<Rightarrow>
          if b = 0 then (c4, Inl ValueError)
          else (case insert_chunks insf s t ep cols (chunks_of rs b) c4 0 of
                  (c5, Inl e) \<Rightarrow> (c5, Inl e)
                | (c5, Inr tot) \<Rightarrow> (commit c5, Inr tot)))"
    using insert_rows_batch_unfold[OF assms, where af = af and insf = insf and conn = conn
        and schema = s and table = t and endpoint = ep and batch_size = b and recreate = rc]
    by (simp only: c3_def cols_def ex[unfolded c3_def])
  obtain c4 r4 where r4: "add_missing af s t (col_type rs) E cols c3 = (c4, r4)"
    by (cases "add_missing af s t (col_type rs) E cols c3")
  show ?thesis
  proof (cases r4)
    case (Inl e)
    with am r4 obtain pre x post where
      com4: "committed c4 = working c4" and sp: "cols = pre @ x # post" and nx: "x \<notin> set E"
      and e: "e = AddColumnError x"
      and tb4: "tables (working c4) (s, t) =
                  Some (T\<lparr>t_columns := t_columns T @
                           map (\<lambda>x. (x, col_type rs x)) (filter (\<lambda>x. x \<notin> set E) pre)\<rparr>)"
      by auto
    have res: "insert_rows_batch af insf conn s t ep rs b rc = (c4, Inl (AddColumnError x))"
      unfolding unf using r4 Inl e by simp
    have "tables (committed c4) (s, t) =
            Some \<lparr>t_columns = columns_after conn s t rc rs pre, t_rows = rows_before conn s t rc\<rparr>"
      using com4 tb4 by (simp add: T_def E_def columns_after_def)
    with sp nx have "\<exists>pre post. all_cols_of rs = pre @ x # post \<and>
                     x \<notin> set (map fst (columns_before conn s t rc)) \<and>
                     tables (committed c4) (s, t) =
                       Some \<lparr>t_columns = columns_after conn s t rc rs pre,
                             t_rows = rows_before conn s t rc\<rparr>"
      unfolding cols_def E_def by blast
    then show ?thesis unfolding res by simp
  next
    case (Inr u)
    with am r4 have com4: "committed c4 = working c4"
      and tb4: "tables (working c4) (s, t) =
                  Some (T\<lparr>t_columns := t_columns T @
                           map (\<lambda>x. (x, col_type rs x)) (filter (\<lambda>x. x \<notin> set E) cols)\<rparr>)"
      by auto
    define T4 where "T4 = T\<lparr>t_columns := t_columns T @
                           map (\<lambda>x. (x, col_type rs x)) (filter (\<lambda>x. x \<notin> set E) cols)\<rparr>"
    have T4: "T4 = \<lparr>t_columns = columns_after conn s t rc rs (all_cols_of rs),
                    t_rows = rows_before conn s t rc\<rparr>"
      by (simp add: T4_def T_def E_def cols_def columns_after_def)
    have tb4': "tables (working c4) (s, t) = Some T4" using tb4 by (simp add: T4_def)
    show ?thesis
    proof (cases "b = 0")
      case True
      have res: "insert_rows_batch af insf conn s t ep rs b rc = (c4, Inl ValueError)"
        unfolding unf using r4 Inr True by simp
      show ?thesis unfolding res using True com4 tb4' T4 by simp
    next
      case nz: False
      note ic = insert_chunks_result[OF tb4', where insf = insf and ep = ep and cols = cols and chunks = "chunks_of rs b" and tot = 0]
      obtain c5 r5 where r5: "insert_chunks insf s t ep cols (chunks_of rs b) c4 0 = (c5, r5)"
        by (cases "insert_chunks insf s t ep cols (chunks_of rs b) c4 0")
      show ?thesis
      proof (cases r5)
        case (Inl e)
        with ic r5 have c5: "committed c5 = committed c4" and e: "e = InsertError" by auto
        have res: "insert_rows_batch af insf conn s t ep rs b rc = (c5, Inl InsertError)"
          unfolding unf using r4 Inr nz r5 Inl e by simp
        show ?thesis unfolding res using nz c5 com4 tb4' T4 by simp
      next
        case r: (Inr n)
        with ic r5 have n: "n = length (concat (chunks_of rs b))"
          and tb5: "tables (working c5) (s, t) =
               Some (T4\<lparr>t_rows := t_rows T4 @ map (row_values ep cols) (concat (chunks_of rs b))\<rparr>)"
          by auto
        have res: "insert_rows_batch af insf conn s t ep rs b rc = (commit c5, Inr n)"
          unfolding unf using r4 Inr nz r5 r by simp
        show ?thesis unfolding res using nz n tb5 T4 by (simp add: commit_def cols_def)
      qed
    qed
  qed
qed

lemma insert_rows_batch_rows:
  assumes "rs \<noteq> []"
  shows "case insert_rows_batch af insf conn s t ep rs b rc of
           (c', Inr n) \<Rightarrow>
             n = (if 0 < b then length rs else 0) \<and>
             table_rows (committed c') s t =
               rows_before conn s t rc @
               (if 0 < b then map (row_values ep (all_cols_of rs)) rs else [])
         | (c', Inl e) \<Rightarrow> table_rows (committed c') s t = rows_before conn s t rc"
proof -
  note m = insert_rows_batch_outcome[OF assms, where af = af and insf = insf and conn = conn
      and s = s and t = t and ep = ep and b = b and rc = rc]
  obtain c' r where res: "insert_rows_batch af insf conn s t ep rs b rc = (c', r)"
    by (cases "insert_rows_batch af insf conn s t ep rs b rc")
  show ?thesis
  proof (cases r)
    case (Inl e)
    with m res show ?thesis by (cases e) (auto simp add: table_rows_def)
  next
    case (Inr n)
    show ?thesis
    proof (cases "0 < b")
      case True
      then have "concat (chunks_of rs b) = rs" by (rule concat_chunks_of)
      with m res Inr True show ?thesis by (simp add: table_rows_def)
    next
      case False
      then have "chunks_of rs b = []" by (simp add: chunks_of_nonpos)
      with m res Inr False show ?thesis by (simp add: table_rows_def)
    qed
  qed
qed

lemma insert_rows_batch_insert_fails:
  assumes "rs \<noteq> []" and "\<forall>cn x ty. \<not> af cn x ty" and "b \<noteq> 0"
    and "chunk \<in> set (chunks_of rs b)"
    and "\<forall>cn. insf cn (map (row_values ep (all_cols_of rs)) chunk)"
  shows "snd (insert_rows_batch af insf conn s t ep rs b rc) = Inl InsertError"
proof -
  from add_missing_no_failure[OF assms(2)] obtain c4 where
    a: "add_missing af s t (col_type rs)
          (get_existing_columns (prepared conn s t rc) s t) (all_cols_of rs) (prepared conn s t rc) =
        (c4, Inr ())" by blast
  from insert_chunks_failure[where chunk = chunk and chunks = "chunks_of rs b" and insf = insf
      and ep = ep and cols = "all_cols_of rs" and s = s and t = t and c = c4 and tot = 0] assms(4,5)
  obtain c5 where
    i: "insert_chunks insf s t ep (all_cols_of rs) (chunks_of rs b) c4 0 = (c5, Inl InsertError)"
    by blast
  show ?thesis
    using assms(1,3) a i by (simp add: insert_rows_batch_unfold)
qed

lemma insert_rows_batch_succeeds:
  assumes "rs \<noteq> []" and "\<forall>cn x ty. \<not> af cn x ty" and "\<forall>cn v. \<not> insf cn v" and "b \<noteq> 0"
  shows "\<exists>n. snd (insert_rows_batch af insf conn s t ep rs b rc) = Inr n"
proof -
  from add_missing_no_failure[OF assms(2)] obtain c4 where
    a: "add_missing af s t (col_type rs)
          (get_existing_columns (prepared conn s t rc) s t) (all_cols_of rs) (prepared conn s t rc) =
        (c4, Inr ())" by blast
  from insert_chunks_no_failure[OF assms(3)] obtain c5 n where
    i: "insert_chunks insf s t ep (all_cols_of rs) (chunks_of rs b) c4 0 = (c5, Inr n)"
    by blast
  show ?thesis
    using assms(1,4) a i by (simp add: insert_rows_batch_unfold)
qed

lemma add_missing_error_kind:
  "add_missing af s t types E cs c = (c', Inl e) \<Longrightarrow> \<exists>y. e = AddColumnError y"
proof (induction cs arbitrary: c)
  case Nil
  then show ?case by simp
next
  case (Cons x cs)
  show ?case
  proof (cases "x \<in> set E")
    case True
    with Cons show ?thesis by simp
  next
    case False
    show ?thesis
    proof (cases "af c x (types x)")
      case True
      with False Cons.prems show ?thesis by (auto simp add: add_column_def)
    next
      case nf: False
      with False Cons.prems Cons.IH show ?thesis
        by (auto simp add: add_column_def Let_def)
    qed
  qed
qed

lemma insert_rows_batch_add_fails:
  assumes "rs \<noteq> []" and "x \<in> set (all_cols_of rs)"
    and "x \<notin> set (map fst (columns_before conn s t rc))"
    and "\<forall>cn. af cn x (col_type rs x)"
  shows "\<exists>y. snd (insert_rows_batch af insf conn s t ep rs b rc) = Inl (AddColumnError y)"
proof -
  have "x \<notin> set (get_existing_columns (prepared conn s t rc) s t)"
    unfolding existing_prepared by (rule assms(3))
  from add_missing_failure[where x = x and cs = "all_cols_of rs" and af = af
      and types = "col_type rs" and E = "get_existing_columns (prepared conn s t rc) s t"
      and s = s and t = t and c = "prepared conn s t rc"] assms(2) this assms(4)
  obtain c4 e where
    a: "add_missing af s t (col_type rs)
          (get_existing_columns (prepared conn s t rc) s t) (all_cols_of rs) (prepared conn s t rc) =
        (c4, Inl e)" by blast
  from add_missing_error_kind[OF a] obtain y where "e = AddColumnError y" by blast
  with a show ?thesis
    using assms(1) by (simp add: insert_rows_batch_unfold)
qed

lemma result_error_case:
  "(case R of (c', Inr n) \<Rightarrow> A c' n | (c', Inl e) \<Rightarrow> B c' e) \<Longrightarrow> snd R = Inl e0 \<Longrightarrow> B (fst R) e0"
  by (cases R) auto

lemma result_ok_case:
  "(case R of (c', Inr n) \<Rightarrow> A c' n | (c', Inl e) \<Rightarrow> B c' e) \<Longrightarrow> snd R = Inr n0 \<Longrightarrow> A (fst R) n0"
  by (cases R) auto

lemma columns_after_names:
  "fst ` set (columns_after conn s t rc rs cols) =
     fst ` set (columns_before conn s t rc) \<union>
     {x \<in> set cols. x \<notin> set (map fst (columns_before conn s t rc))}"
proof -
  have "fst ` set (columns_after conn s t rc rs cols) =
          fst ` set (columns_before conn s t rc) \<union>
          set (map fst (map (\<lambda>x. (x, col_type rs x))
                 (filter (\<lambda>x. x \<notin> set (map fst (columns_before conn s t rc))) cols)))"
    by (simp only: columns_after_def set_append image_Un set_map)
  also have "map fst (map (\<lambda>x. (x, col_type rs x))
                 (filter (\<lambda>x. x \<notin> set (map fst (columns_before conn s t rc))) cols)) =
             filter (\<lambda>x. x \<notin> set (map fst (columns_before conn s t rc))) cols"
    by (simp add: comp_def)
  finally show ?thesis by simp
qed

text \<open>
  Claim C3, as stated, fails: the chunks are not committed one by one. With a chunk size
  of 1 and two records, of which the second cannot be inserted, the call raises, and the
  committed table holds no row: the record of the first chunk was inserted in the open
  transaction only.
\<close>

theorem insert_chunk_failure_counterexample:
  "(case insert_rows_batch (\<lambda>cn x ty. False)
           (\<lambda>cn v. v = [[(''_endpoint'', Plain (JStr ''Ep'')), (''a'', Plain (JInt 2))]])
           fresh_conn ''s'' ''t'' ''Ep'' [[(''a'', JInt 1)], [(''a'', JInt 2)]] 1 True of
      (c', r) \<Rightarrow> (r, table_rows (committed c') ''s'' ''t'', table_rows (working c') ''s'' ''t'')) =
   (Inl InsertError, [], [[(''_endpoint'', Plain (JStr ''Ep'')), (''a'', Plain (JInt 1))]])"
  by code_simp

text \<open>
  Claim C3, amended. All chunks of one call are inserted in one transaction, which is
  committed once, after the last chunk. A call that raises, for instance because
  inserting chunk K fails, has committed none of its records: the committed rows of the
  table are those from before the inserts, so the records of chunks 1..K-1 are not
  committed. A call that returns has committed all its records together and returns
  their number. When no column addition fails and some chunk cannot be inserted, the
  call raises the insert error; when nothing fails and the chunk size is positive, it
  returns the number of records.
\<close>

theorem insert_rows_batch_commits_once:
  assumes "rs \<noteq> []"
  shows "(case insert_rows_batch af insf conn s t ep rs b rc of
            (c', Inr n) \<Rightarrow>
              n = (if 0 < b then length rs else 0) \<and>
              table_rows (committed c') s t =
                rows_before conn s t rc @
                (if 0 < b then map (row_values ep (all_cols_of rs)) rs else [])
          | (c', Inl e) \<Rightarrow> table_rows (committed c') s t = rows_before conn s t rc) \<and>
         ((\<forall>cn x ty. \<not> afa cn x ty) \<and> b \<noteq> 0 \<and> chunk \<in> set (chunks_of rs b) \<and>
          (\<forall>cn. insfa cn (map (row_values ep (all_cols_of rs)) chunk)) \<longrightarrow>
            snd (insert_rows_batch afa insfa conn s t ep rs b rc) = Inl InsertError) \<and>
         ((\<forall>cn x ty. \<not> afb cn x ty) \<and> (\<forall>cn v. \<not> insfb cn v) \<and> 0 < b \<longrightarrow>
            snd (insert_rows_batch afb insfb conn s t ep rs b rc) = Inr (length rs))"
proof (intro conjI impI)
  show "case insert_rows_batch af insf conn s t ep rs b rc of
            (c', Inr n) \<Rightarrow>
              n = (if 0 < b then length rs else 0) \<and>
              table_rows (committed c') s t =
                rows_before conn s t rc @
                (if 0 < b then map (row_values ep (all_cols_of rs)) rs else [])
          | (c', Inl e) \<Rightarrow> table_rows (committed c') s t = rows_before conn s t rc"
    using assms by (rule insert_rows_batch_rows)
next
  assume h: "(\<forall>cn x ty. \<not> afa cn x ty) \<and> b \<noteq> 0 \<and> chunk \<in> set (chunks_of rs b) \<and>
          (\<forall>cn. insfa cn (map (row_values ep (all_cols_of rs)) chunk))"
  then show "snd (insert_rows_batch afa insfa conn s t ep rs b rc) = Inl InsertError"
    using assms insert_rows_batch_insert_fails[where af = afa and insf = insfa and rs = rs
        and b = b and chunk = chunk and ep = ep and conn = conn and s = s and t = t and rc = rc]
    by blast
next
  assume h: "(\<forall>cn x ty. \<not> afb cn x ty) \<and> (\<forall>cn v. \<not> insfb cn v) \<and> 0 < b"
  then have "b \<noteq> 0" by simp
  with h assms insert_rows_batch_succeeds[where af = afb and insf = insfb and rs = rs
        and b = b and ep = ep and conn = conn and s = s and t = t and rc = rc]
  obtain n where n: "snd (insert_rows_batch afb insfb conn s t ep rs b rc) = Inr n" by blast
  from insert_rows_batch_rows[OF assms, where af = afb and insf = insfb and conn = conn
      and s = s and t = t and ep = ep and b = b and rc = rc] n h
  have "n = length rs"
    by (cases "insert_rows_batch afb insfb conn s t ep rs b rc") auto
  with n show "snd (insert_rows_batch afb insfb conn s t ep rs b rc) = Inr (length rs)" by simp
qed

theorem insert_rows_batch_commits_once_witness:
  "[[(''a'', JInt 1)], [(''a'', JInt 2)]] \<noteq> [] \<and>
   [[(''a'', JInt 2)]] \<in> set (chunks_of [[(''a'', JInt 1)], [(''a'', JInt 2)]] 1) \<and>
   snd (insert_rows_batch (\<lambda>cn x ty. False)
          (\<lambda>cn v. v = map (row_values ''Ep'' (all_cols_of [[(''a'', JInt 1)], [(''a'', JInt 2)]]))
                          [[(''a'', JInt 2)]])
          fresh_conn ''s'' ''t'' ''Ep'' [[(''a'', JInt 1)], [(''a'', JInt 2)]] 1 True) =
     Inl InsertError \<and>
   table_rows
     (committed (fst (insert_rows_batch (\<lambda>cn x ty. False)
          (\<lambda>cn v. v = map (row_values ''Ep'' (all_cols_of [[(''a'', JInt 1)], [(''a'', JInt 2)]]))
                          [[(''a'', JInt 2)]])
          fresh_conn ''s'' ''t'' ''Ep'' [[(''a'', JInt 1)], [(''a'', JInt 2)]] 1 True))) ''s'' ''t'' = [] \<and>
   snd (insert_rows_batch (\<lambda>cn x ty. False) (\<lambda>cn v. False)
          fresh_conn ''s'' ''t'' ''Ep'' [[(''a'', JInt 1)], [(''a'', JInt 2)]] 1 True) = Inr 2"
proof -
  let ?rs = "[[(''a'', JInt 1)], [(''a'', JInt 2)]]"
  let ?bad = "\<lambda>(cn :: pg_conn) v. v = map (row_values ''Ep'' (all_cols_of ?rs)) [[(''a'', JInt 2)]]"
  have ne: "?rs \<noteq> []" by simp
  have ch: "[[(''a'', JInt 2)]] \<in> set (chunks_of ?rs 1)" by code_simp
  note th = insert_rows_batch_commits_once[OF ne, where af = "\<lambda>cn x ty. False" and insf = ?bad
      and afa = "\<lambda>cn x ty. False" and insfa = ?bad and afb = "\<lambda>cn x ty. False"
      and insfb = "\<lambda>cn v. False" and conn = fresh_conn and s = "''s''" and t = "''t''"
      and ep = "''Ep''" and b = 1 and rc = True and chunk = "[[(''a'', JInt 2)]]"]
  from th ch have f: "snd (insert_rows_batch (\<lambda>cn x ty. False) ?bad fresh_conn ''s'' ''t'' ''Ep'' ?rs 1 True) =
      Inl InsertError"
    by simp
  from th have "case insert_rows_batch (\<lambda>cn x ty. False) ?bad fresh_conn ''s'' ''t'' ''Ep'' ?rs 1 True of
            (c', Inr n) \<Rightarrow>
              n = (if 0 < (1::int) then length ?rs else 0) \<and>
              table_rows (committed c') ''s'' ''t'' =
                rows_before fresh_conn ''s'' ''t'' True @
                (if 0 < (1::int) then map (row_values ''Ep'' (all_cols_of ?rs)) ?rs else [])
          | (c', Inl e) \<Rightarrow> table_rows (committed c') ''s'' ''t'' = rows_before fresh_conn ''s'' ''t'' True"
    by (rule conjunct1)
  from result_error_case[OF this f]
  have r: "table_rows (committed (fst (insert_rows_batch (\<lambda>cn x ty. False) ?bad fresh_conn
              ''s'' ''t'' ''Ep'' ?rs 1 True))) ''s'' ''t'' = []"
    by (simp add: rows_before_def)
  from th have ok: "snd (insert_rows_batch (\<lambda>cn x ty. False) (\<lambda>cn v. False)
          fresh_conn ''s'' ''t'' ''Ep'' ?rs 1 True) = Inr 2"
    by simp
  from ne ch f r ok show ?thesis by (intro conjI)
qed

text \<open>
  Claim C8, as stated, fails: \<^verbatim>\<open>add_column\<close> is called without any handler, so a failure
  while adding a column ends \<^verbatim>\<open>insert_rows_batch\<close>. With one record with the fields \<open>a\<close>
  and \<open>b\<close> and a database that refuses to add column \<open>a\<close>, the call raises, column \<open>b\<close>
  is not added, and no row is inserted.
\<close>

theorem add_column_failure_counterexample:
  "(case insert_rows_batch (\<lambda>cn x ty. x = ''a'') (\<lambda>cn v. False) fresh_conn ''s'' ''t'' ''Ep''
           [[(''a'', JInt 1), (''b'', JInt 2)]] 500 True of
      (c', r) \<Rightarrow> (r, table_columns (committed c') ''s'' ''t'', table_rows (committed c') ''s'' ''t'',
                   table_rows (working c') ''s'' ''t'')) =
   (Inl (AddColumnError ''a''),
    [(''_id'', ''bigserial''), (''_fetched_at'', ''timestamptz''), (''_endpoint'', ''text'')],
    [], [])"
  by code_simp

text \<open>
  Claim C8, amended. During schema reconciliation the required columns absent from the
  table's current column set are added in sorted order, each with its resolved type;
  when the call does not fail while adding, the table has every required column. A
  failure while adding one column is not isolated: the call raises at that column, the
  columns before it stay added, the column itself and the absent columns after it are
  not added, and no row is inserted. If the database refuses an absent required column,
  the call raises such an error.
\<close>

theorem add_column_failure_aborts:
  assumes "rs \<noteq> []"
  shows "(case insert_rows_batch af insf conn s t ep rs b rc of
            (c', Inr n) \<Rightarrow>
              table_columns (committed c') s t = columns_after conn s t rc rs (all_cols_of rs)
          | (c', Inl e) \<Rightarrow>
              (case e of
                 AddColumnError x \<Rightarrow>
                   (\<exists>pre post. all_cols_of rs = pre @ x # post \<and>
                      x \<notin> set (map fst (columns_before conn s t rc)) \<and>
                      table_columns (committed c') s t = columns_after conn s t rc rs pre \<and>
                      x \<notin> fst ` set (table_columns (committed c') s t) \<and>
                      (\<forall>y\<in>set post. y \<notin> set (map fst (columns_before conn s t rc)) \<longrightarrow>
                         y \<notin> fst ` set (table_columns (committed c') s t)) \<and>
                      table_rows (committed c') s t = rows_before conn s t rc)
               | InsertError \<Rightarrow>
                   table_columns (committed c') s t = columns_after conn s t rc rs (all_cols_of rs)
               | ValueError \<Rightarrow>
                   table_columns (committed c') s t = columns_after conn s t rc rs (all_cols_of rs))) \<and>
         set (all_cols_of rs) \<subseteq> fst ` set (columns_after conn s t rc rs (all_cols_of rs)) \<and>
         (x \<in> set (all_cols_of rs) \<and> x \<notin> set (map fst (columns_before conn s t rc)) \<longrightarrow>
            (x, col_type rs x) \<in> set (columns_after conn s t rc rs (all_cols_of rs))) \<and>
         (z \<in> set (all_cols_of rs) \<and> z \<notin> set (map fst (columns_before conn s t rc)) \<and>
          (\<forall>cn. afa cn z (col_type rs z)) \<longrightarrow>
            (\<exists>y. snd (insert_rows_batch afa insf conn s t ep rs b rc) = Inl (AddColumnError y)))"
proof (intro conjI impI)
  note m = insert_rows_batch_outcome[OF assms, where af = af and insf = insf and conn = conn
      and s = s and t = t and ep = ep and b = b and rc = rc]
  obtain c' r where res: "insert_rows_batch af insf conn s t ep rs b rc = (c', r)"
    by (cases "insert_rows_batch af insf conn s t ep rs b rc")
  show "case insert_rows_batch af insf conn s t ep rs b rc of
            (c', Inr n) \<Rightarrow>
              table_columns (committed c') s t = columns_after conn s t rc rs (all_cols_of rs)
          | (c', Inl e) \<Rightarrow>
              (case e of
                 AddColumnError x \<Rightarrow>
                   (\<exists>pre post. all_cols_of rs = pre @ x # post \<and>
                      x \<notin> set (map fst (columns_before conn s t rc)) \<and>
                      table_columns (committed c') s t = columns_after conn s t rc rs pre \<and>
                      x \<notin> fst ` set (table_columns (committed c') s t) \<and>
                      (\<forall>y\<in>set post. y \<notin> set (map fst (columns_before conn s t rc)) \<longrightarrow>
                         y \<notin> fst ` set (table_columns (committed c') s t)) \<and>
                      table_rows (committed c') s t = rows_before conn s t rc)
               | InsertError \<Rightarrow>
                   table_columns (committed c') s t = columns_after conn s t rc rs (all_cols_of rs)
               | ValueError \<Rightarrow>
                   table_columns (committed c') s t = columns_after conn s t rc rs (all_cols_of rs))"
  proof (cases r)
    case (Inr n)
    with m res show ?thesis by (simp add: table_columns_def)
  next
    case (Inl e)
    show ?thesis
    proof (cases e)
      case (AddColumnError x)
      with m res Inl obtain pre post where
        sp: "all_cols_of rs = pre @ x # post" and
        nx: "x \<notin> set (map fst (columns_before conn s t rc))" and
        tb: "tables (committed c') (s, t) =
               Some \<lparr>t_columns = columns_after conn s t rc rs pre, t_rows = rows_before conn s t rc\<rparr>"
        by auto
      have d: "distinct (pre @ x # post)" using distinct_all_cols_of[of rs] sp by simp
      have tc: "table_columns (committed c') s t = columns_after conn s t rc rs pre"
        using tb by (simp add: table_columns_def)
      have tr: "table_rows (committed c') s t = rows_before conn s t rc"
        using tb by (simp add: table_rows_def)
      have xn: "x \<notin> fst ` set (table_columns (committed c') s t)"
        unfolding tc columns_after_names using nx d by auto
      have pn: "\<forall>y\<in>set post. y \<notin> set (map fst (columns_before conn s t rc)) \<longrightarrow>
                  y \<notin> fst ` set (table_columns (committed c') s t)"
        unfolding tc columns_after_names using d by auto
      from sp nx tc tr xn pn have "\<exists>pre post. all_cols_of rs = pre @ x # post \<and>
                      x \<notin> set (map fst (columns_before conn s t rc)) \<and>
                      table_columns (committed c') s t = columns_after conn s t rc rs pre \<and>
                      x \<notin> fst ` set (table_columns (committed c') s t) \<and>
                      (\<forall>y\<in>set post. y \<notin> set (map fst (columns_before conn s t rc)) \<longrightarrow>
                         y \<notin> fst ` set (table_columns (committed c') s t)) \<and>
                      table_rows (committed c') s t = rows_before conn s t rc"
        by blast
      with res Inl AddColumnError show ?thesis by simp
    next
      case InsertError
      with m res Inl show ?thesis by (simp add: table_columns_def)
    next
      case ValueError
      with m res Inl show ?thesis by (simp add: table_columns_def)
    qed
  qed
next
  show "set (all_cols_of rs) \<subseteq> fst ` set (columns_after conn s t rc rs (all_cols_of rs))"
    unfolding columns_after_names by auto
next
  assume "x \<in> set (all_cols_of rs) \<and> x \<notin> set (map fst (columns_before conn s t rc))"
  then show "(x, col_type rs x) \<in> set (columns_after conn s t rc rs (all_cols_of rs))"
    by (auto simp add: columns_after_def)
next
  assume h: "z \<in> set (all_cols_of rs) \<and> z \<notin> set (map fst (columns_before conn s t rc)) \<and>
          (\<forall>cn. afa cn z (col_type rs z))"
  with assms insert_rows_batch_add_fails[where rs = rs and x = z and conn = conn and s = s
      and t = t and rc = rc and af = afa and insf = insf and ep = ep and b = b]
  show "\<exists>y. snd (insert_rows_batch afa insf conn s t ep rs b rc) = Inl (AddColumnError y)"
    by blast
qed

theorem add_column_failure_aborts_witness:
  "[[(''a'', JInt 1), (''b'', JInt 2), (''c'', JInt 3)]] \<noteq> [] \<and>
   all_cols_of [[(''a'', JInt 1), (''b'', JInt 2), (''c'', JInt 3)]] = [''a'', ''b'', ''c''] \<and>
   ''b'' \<notin> set (map fst (columns_before fresh_conn ''s'' ''t'' True)) \<and>
   snd (insert_rows_batch (\<lambda>cn x ty. x = ''b'') (\<lambda>cn v. False) fresh_conn ''s'' ''t'' ''Ep''
          [[(''a'', JInt 1), (''b'', JInt 2), (''c'', JInt 3)]] 500 True) =
     Inl (AddColumnError ''b'') \<and>
   table_rows (committed (fst (insert_rows_batch (\<lambda>cn x ty. x = ''b'') (\<lambda>cn v. False)
          fresh_conn ''s'' ''t'' ''Ep''
          [[(''a'', JInt 1), (''b'', JInt 2), (''c'', JInt 3)]] 500 True))) ''s'' ''t'' = [] \<and>
   ''b'' \<notin> fst ` set (table_columns (committed (fst (insert_rows_batch (\<lambda>cn x ty. x = ''b'')
          (\<lambda>cn v. False) fresh_conn ''s'' ''t'' ''Ep''
          [[(''a'', JInt 1), (''b'', JInt 2), (''c'', JInt 3)]] 500 True))) ''s'' ''t'')"
proof -
  let ?rs = "[[(''a'', JInt 1), (''b'', JInt 2), (''c'', JInt 3)]]"
  let ?R = "insert_rows_batch (\<lambda>cn x ty. x = ''b'') (\<lambda>cn v. False) fresh_conn ''s'' ''t'' ''Ep''
          ?rs 500 True"
  have ne: "?rs \<noteq> []" by simp
  have ac: "all_cols_of ?rs = [''a'', ''b'', ''c'']" by code_simp
  have nb: "''b'' \<notin> set (map fst (columns_before fresh_conn ''s'' ''t'' True))"
    by (simp add: columns_before_def base_columns_def)
  have r: "snd ?R = Inl (AddColumnError ''b'')" by code_simp
  note th = add_column_failure_aborts[OF ne, where af = "\<lambda>cn x ty. x = ''b''"
      and insf = "\<lambda>cn v. False" and conn = fresh_conn and s = "''s''" and t = "''t''"
      and ep = "''Ep''" and b = 500 and rc = True and afa = "\<lambda>cn x ty. x = ''b''"
      and x = "''b''" and z = "''b''"]
  from th have "case ?R of
            (c', Inr n) \<Rightarrow>
              table_columns (committed c') ''s'' ''t'' =
                columns_after fresh_conn ''s'' ''t'' True ?rs (all_cols_of ?rs)
          | (c', Inl e) \<Rightarrow>
              (case e of
                 AddColumnError x \<Rightarrow>
                   (\<exists>pre post. all_cols_of ?rs = pre @ x # post \<and>
                      x \<notin> set (map fst (columns_before fresh_conn ''s'' ''t'' True)) \<and>
                      table_columns (committed c') ''s'' ''t'' =
                        columns_after fresh_conn ''s'' ''t'' True ?rs pre \<and>
                      x \<notin> fst ` set (table_columns (committed c') ''s'' ''t'') \<and>
                      (\<forall>y\<in>set post. y \<notin> set (map fst (columns_before fresh_conn ''s'' ''t'' True)) \<longrightarrow>
                         y \<notin> fst ` set (table_columns (committed c') ''s'' ''t'')) \<and>
                      table_rows (committed c') ''s'' ''t'' = rows_before fresh_conn ''s'' ''t'' True)
               | InsertError \<Rightarrow>
                   table_columns (committed c') ''s'' ''t'' =
                     columns_after fresh_conn ''s'' ''t'' True ?rs (all_cols_of ?rs)
               | ValueError \<Rightarrow>
                   table_columns (committed c') ''s'' ''t'' =
                     columns_after fresh_conn ''s'' ''t'' True ?rs (all_cols_of ?rs))"
    by (rule conjunct1)
  from result_error_case[OF this r]
  have "\<exists>pre post. all_cols_of ?rs = pre @ ''b'' # post \<and>
                      ''b'' \<notin> set (map fst (columns_before fresh_conn ''s'' ''t'' True)) \<and>
                      table_columns (committed (fst ?R)) ''s'' ''t'' =
                        columns_after fresh_conn ''s'' ''t'' True ?rs pre \<and>
                      ''b'' \<notin> fst ` set (table_columns (committed (fst ?R)) ''s'' ''t'') \<and>
                      (\<forall>y\<in>set post. y \<notin> set (map fst (columns_before fresh_conn ''s'' ''t'' True)) \<longrightarrow>
                         y \<notin> fst ` set (table_columns (committed (fst ?R)) ''s'' ''t'')) \<and>
                      table_rows (committed (fst ?R)) ''s'' ''t'' = rows_before fresh_conn ''s'' ''t'' True"
    by simp
  then have rows: "table_rows (committed (fst ?R)) ''s'' ''t'' = []"
    and nocol: "''b'' \<notin> fst ` set (table_columns (committed (fst ?R)) ''s'' ''t'')"
    by (auto simp add: rows_before_def)
  from ne ac nb r rows nocol show ?thesis by (intro conjI)
qed

text \<open>
  Claim C9. For every non-empty record list, a call of the batch insert with the
  recreate flag at its default (true) drops the target table first: afterwards the
  committed table holds the records of this call and nothing else (no row at all if the
  call raised), so the rows of earlier calls are discarded. With the flag false, as the
  run loop passes it, the earlier rows stay and the new ones follow them.
\<close>

theorem insert_rows_batch_recreate_discards:
  assumes "rs \<noteq> []"
  shows "(case insert_rows_batch_defaults af insf conn s t ep rs of
            (c', r) \<Rightarrow>
              table_rows (committed c') s t =
                (case r of Inr n \<Rightarrow> map (row_values ep (all_cols_of rs)) rs | Inl e \<Rightarrow> [])) \<and>
         (case run_cycle_insert af insf conn s t ep rs of
            (c', r) \<Rightarrow>
              table_rows (committed c') s t =
                table_rows (working conn) s t @
                (case r of Inr n \<Rightarrow> map (row_values ep (all_cols_of rs)) rs | Inl e \<Rightarrow> [])) \<and>
         (case insert_rows_batch af insf conn s t ep rs b True of
            (c', r) \<Rightarrow>
              table_rows (committed c') s t =
                (case r of
                   Inr n \<Rightarrow> if 0 < b then map (row_values ep (all_cols_of rs)) rs else []
                 | Inl e \<Rightarrow> [])) \<and>
         (case insert_rows_batch af insf conn s t ep rs b False of
            (c', r) \<Rightarrow>
              table_rows (committed c') s t =
                table_rows (working conn) s t @
                (case r of
                   Inr n \<Rightarrow> if 0 < b then map (row_values ep (all_cols_of rs)) rs else []
                 | Inl e \<Rightarrow> []))"
proof -
  have gen: "case insert_rows_batch af insf conn s t ep rs b' rc of
            (c', r) \<Rightarrow>
              table_rows (committed c') s t =
                rows_before conn s t rc @
                (case r of
                   Inr n \<Rightarrow> if 0 < b' then map (row_values ep (all_cols_of rs)) rs else []
                 | Inl e \<Rightarrow> [])" for b' rc
  proof -
    note m = insert_rows_batch_rows[OF assms, where af = af and insf = insf and conn = conn
      and s = s and t = t and ep = ep and b = b' and rc = rc]
    obtain c' r where res: "insert_rows_batch af insf conn s t ep rs b' rc = (c', r)"
      by (cases "insert_rows_batch af insf conn s t ep rs b' rc")
    with m show ?thesis by (cases r) simp_all
  qed
  have dflt: "case insert_rows_batch af insf conn s t ep rs 500 rc of
            (c', r) \<Rightarrow>
              table_rows (committed c') s t =
                rows_before conn s t rc @
                (case r of Inr n \<Rightarrow> map (row_values ep (all_cols_of rs)) rs | Inl e \<Rightarrow> [])" for rc
  proof -
    obtain c' r where res: "insert_rows_batch af insf conn s t ep rs 500 rc = (c', r)"
      by (cases "insert_rows_batch af insf conn s t ep rs 500 rc")
    with gen[where b' = 500 and rc = rc] show ?thesis by (cases r) simp_all
  qed
  have 1: "case insert_rows_batch_defaults af insf conn s t ep rs of
            (c', r) \<Rightarrow>
              table_rows (committed c') s t =
                (case r of Inr n \<Rightarrow> map (row_values ep (all_cols_of rs)) rs | Inl e \<Rightarrow> [])"
    using dflt[of True] by (simp add: insert_rows_batch_defaults_def rows_before_def)
  have 2: "case run_cycle_insert af insf conn s t ep rs of
            (c', r) \<Rightarrow>
              table_rows (committed c') s t =
                table_rows (working conn) s t @
                (case r of Inr n \<Rightarrow> map (row_values ep (all_cols_of rs)) rs | Inl e \<Rightarrow> [])"
    using dflt[of False] by (simp add: run_cycle_insert_def rows_before_def)
  have 3: "case insert_rows_batch af insf conn s t ep rs b True of
            (c', r) \<Rightarrow>
              table_rows (committed c') s t =
                (case r of
                   Inr n \<Rightarrow> if 0 < b then map (row_values ep (all_cols_of rs)) rs else []
                 | Inl e \<Rightarrow> [])"
    using gen[where b' = b and rc = True] by (simp add: rows_before_def)
  have 4: "case insert_rows_batch af insf conn s t ep rs b False of
            (c', r) \<Rightarrow>
              table_rows (committed c') s t =
                table_rows (working conn) s t @
                (case r of
                   Inr n \<Rightarrow> if 0 < b then map (row_values ep (all_cols_of rs)) rs else []
                 | Inl e \<Rightarrow> [])"
    using gen[where b' = b and rc = False] by (simp add: rows_before_def)
  from 1 2 3 4 show ?thesis by (intro conjI)
qed

theorem insert_rows_batch_recreate_discards_witness:
  "[[(''a'', JInt 2)]] \<noteq> [] \<and>
   table_rows (working (fst (insert_rows_batch_defaults (\<lambda>cn x ty. False) (\<lambda>cn v. False)
       fresh_conn ''s'' ''t'' ''Ep'' [[(''a'', JInt 1)]]))) ''s'' ''t'' =
     [[(''_endpoint'', Plain (JStr ''Ep'')), (''a'', Plain (JInt 1))]] \<and>
   table_rows (committed (fst (insert_rows_batch_defaults (\<lambda>cn x ty. False) (\<lambda>cn v. False)
       (fst (insert_rows_batch_defaults (\<lambda>cn x ty. False) (\<lambda>cn v. False)
          fresh_conn ''s'' ''t'' ''Ep'' [[(''a'', JInt 1)]]))
       ''s'' ''t'' ''Ep'' [[(''a'', JInt 2)]]))) ''s'' ''t'' =
     [[(''_endpoint'', Plain (JStr ''Ep'')), (''a'', Plain (JInt 2))]] \<and>
   table_rows (committed (fst (run_cycle_insert (\<lambda>cn x ty. False) (\<lambda>cn v. False)
       (fst (insert_rows_batch_defaults (\<lambda>cn x ty. False) (\<lambda>cn v. False)
          fresh_conn ''s'' ''t'' ''Ep'' [[(''a'', JInt 1)]]))
       ''s'' ''t'' ''Ep'' [[(''a'', JInt 2)]]))) ''s'' ''t'' =
     [[(''_endpoint'', Plain (JStr ''Ep'')), (''a'', Plain (JInt 1))],
      [(''_endpoint'', Plain (JStr ''Ep'')), (''a'', Plain (JInt 2))]]"
proof -
  define conn1 where "conn1 = fst (insert_rows_batch_defaults (\<lambda>cn x ty. False) (\<lambda>cn v. False)
       fresh_conn ''s'' ''t'' ''Ep'' [[(''a'', JInt 1)]])"
  have ne: "[[(''a'', JInt 2)]] \<noteq> ([] :: pydict list)" by simp
  have old: "table_rows (working conn1) ''s'' ''t'' =
     [[(''_endpoint'', Plain (JStr ''Ep'')), (''a'', Plain (JInt 1))]]"
    unfolding conn1_def by code_simp
  have new: "row_values ''Ep'' (all_cols_of [[(''a'', JInt 2)]]) [(''a'', JInt 2)] =
     [(''_endpoint'', Plain (JStr ''Ep'')), (''a'', Plain (JInt 2))]"
    by code_simp
  have r1: "snd (insert_rows_batch_defaults (\<lambda>cn x ty. False) (\<lambda>cn v. False) conn1
               ''s'' ''t'' ''Ep'' [[(''a'', JInt 2)]]) = Inr 1"
    unfolding conn1_def by code_simp
  have r2: "snd (run_cycle_insert (\<lambda>cn x ty. False) (\<lambda>cn v. False) conn1
               ''s'' ''t'' ''Ep'' [[(''a'', JInt 2)]]) = Inr 1"
    unfolding conn1_def by code_simp
  note th = insert_rows_batch_recreate_discards[OF ne, where af = "\<lambda>cn x ty. False"
      and insf = "\<lambda>cn v. False" and conn = conn1 and s = "''s''" and t = "''t''"
      and ep = "''Ep''" and b = 500]
  from th r1 have a: "table_rows (committed (fst (insert_rows_batch_defaults (\<lambda>cn x ty. False)
       (\<lambda>cn v. False) conn1 ''s'' ''t'' ''Ep'' [[(''a'', JInt 2)]]))) ''s'' ''t'' =
     [[(''_endpoint'', Plain (JStr ''Ep'')), (''a'', Plain (JInt 2))]]"
    by (cases "insert_rows_batch_defaults (\<lambda>cn x ty. False)
       (\<lambda>cn v. False) conn1 ''s'' ''t'' ''Ep'' [[(''a'', JInt 2)]]") (simp add: new)
  from th r2 have b: "table_rows (committed (fst (run_cycle_insert (\<lambda>cn x ty. False)
       (\<lambda>cn v. False) conn1 ''s'' ''t'' ''Ep'' [[(''a'', JInt 2)]]))) ''s'' ''t'' =
     [[(''_endpoint'', Plain (JStr ''Ep'')), (''a'', Plain (JInt 1))],
      [(''_endpoint'', Plain (JStr ''Ep'')), (''a'', Plain (JInt 2))]]"
    by (cases "run_cycle_insert (\<lambda>cn x ty. False)
       (\<lambda>cn v. False) conn1 ''s'' ''t'' ''Ep'' [[(''a'', JInt 2)]]") (simp add: new old)
  from ne old a b show ?thesis unfolding conn1_def by (intro conjI)
qed

end
